theory Spec2Isabelle
  imports Main
begin

section \<open>The flow model\<close>

text \<open>
  The flow helper of \<^verbatim>\<open>flow-helper.ts\<close> (the second document of the source file)
  rewrites a tree of steps. A step is a tagged union: a leaf (code or piece action, empty
  or piece trigger), a branch with two structural slots, a loop with one, a router with a
  list of slots; every step also has a \<^verbatim>\<open>nextAction\<close>. The values of
  this theory are trees, as the objects of the source are after
  \<^verbatim>\<open>JSON.parse(JSON.stringify(...))\<close>.
\<close>

datatype json =
    JNull
  | JBool bool
  | JNum int
  | JStr string
  | JArr "json list"
  | JObj "(string \<times> json) list"

record SampleDataSettings =
  currentSelectedData :: "json option"
  sampleDataFileId :: "string option"
  lastTestDate :: "string option"

text \<open>
  Modelled from the spec: \<^verbatim>\<open>DEFAULT_SAMPLE_DATA_SETTINGS\<close> is imported
  from \<^verbatim>\<open>./sample-data\<close>, which is not among the sources; the spec describes
  it as the sample data metadata with \<^verbatim>\<open>current_selected_data\<close>,
  \<^verbatim>\<open>sample_data_file_id\<close> and \<^verbatim>\<open>last_test_date\<close> cleared.
\<close>

definition DEFAULT_SAMPLE_DATA_SETTINGS :: SampleDataSettings where
  "DEFAULT_SAMPLE_DATA_SETTINGS =
     \<lparr>currentSelectedData = None, sampleDataFileId = None, lastTestDate = None\<rparr>"

text \<open>
  Modelled from the spec: \<^verbatim>\<open>emptyCondition\<close> is imported from
  \<^verbatim>\<open>./actions/action\<close>, which is not among the sources; it is kept as a
  constant of its own, apart from every other condition.
\<close>

datatype BranchCondition = emptyCondition | Condition json

datatype BranchExecutionType = CONDITION | FALLBACK

record RouterBranch =
  conditions :: "BranchCondition list list"
  branchType :: BranchExecutionType
  branchName :: string

text \<open>
  The settings object of a step. The fields a kind does not use are left at their empty
  value: \<^verbatim>\<open>branches\<close> is read for routers only,
  \<^verbatim>\<open>pieceName\<close> and \<^verbatim>\<open>pieceVersion\<close> for piece steps only.
  An absent \<^verbatim>\<open>input\<close> or \<^verbatim>\<open>inputUiInfo\<close> is \<open>None\<close>.
\<close>

record settings =
  pieceName :: string
  pieceVersion :: string
  input :: "json option"
  inputUiInfo :: "SampleDataSettings option"
  branches :: "RouterBranch list"

record props =
  name :: string
  displayName :: string
  valid :: bool
  settings :: settings

datatype ActionType = CODE | PIECE | LOOP_ON_ITEMS | BRANCH | ROUTER

datatype TriggerType = EMPTY | PIECE_TRIGGER

datatype StepType = Action ActionType | Trigger TriggerType

datatype LeafType = LEAF_CODE | LEAF_PIECE | LEAF_EMPTY | LEAF_PIECE_TRIGGER

datatype step =
    Leaf (props: props) (leafType: LeafType) (nextAction: "step option")
  | Branch (props: props) (onSuccessAction: "step option") (onFailureAction: "step option")
      (nextAction: "step option")
  | Loop (props: props) (firstLoopAction: "step option") (nextAction: "step option")
  | Router (props: props) (children: "step option list") (nextAction: "step option")

fun stepType :: "step \<Rightarrow> StepType" where
  "stepType (Leaf p LEAF_CODE n) = Action CODE"
| "stepType (Leaf p LEAF_PIECE n) = Action PIECE"
| "stepType (Leaf p LEAF_EMPTY n) = Trigger EMPTY"
| "stepType (Leaf p LEAF_PIECE_TRIGGER n) = Trigger PIECE_TRIGGER"
| "stepType (Branch p s f n) = Action BRANCH"
| "stepType (Loop p b n) = Action LOOP_ON_ITEMS"
| "stepType (Router p cs n) = Action ROUTER"

fun setNextAction :: "step option \<Rightarrow> step \<Rightarrow> step" where
  "setNextAction x (Leaf p k n) = Leaf p k x"
| "setNextAction x (Branch p s f n) = Branch p s f x"
| "setNextAction x (Loop p b n) = Loop p b x"
| "setNextAction x (Router p cs n) = Router p cs x"

fun setProps :: "props \<Rightarrow> step \<Rightarrow> step" where
  "setProps q (Leaf p k n) = Leaf q k n"
| "setProps q (Branch p s f n) = Branch q s f n"
| "setProps q (Loop p b n) = Loop q b n"
| "setProps q (Router p cs n) = Router q cs n"

datatype FlowVersionState = DRAFT | LOCKED

text \<open>
  The flow version. Its \<^verbatim>\<open>displayName\<close> and \<^verbatim>\<open>valid\<close> are
  the fields \<open>flowDisplayName\<close> and \<open>flowValid\<close> here (a step has fields of the
  same names).
\<close>

record FlowVersion =
  flowDisplayName :: string
  state :: FlowVersionState
  trigger :: step
  flowValid :: bool

section \<open>Errors and results\<close>

text \<open>
  What a call of the source can do: return a value, throw, or recurse without end.
  \<open>FLOW_OPERATION_INVALID\<close> is the \<^verbatim>\<open>ActivepiecesError\<close> of that code,
  with its message; \<open>Error\<close> is a plain \<^verbatim>\<open>new Error(message)\<close>;
  \<open>TypeError\<close> and \<open>SyntaxError\<close> are the exceptions of the language itself
  (a property read on \<^verbatim>\<open>undefined\<close>, \<^verbatim>\<open>JSON.parse\<close> of what is
  not JSON, \<^verbatim>\<open>semver.lt\<close> of what is not a version).
  \<open>OutOfFuel\<close> stands for a recursion that was cut off: \<^verbatim>\<open>transferStep\<close>
  recurses into the step its argument function returned, which may be larger than the
  step it was given.
\<close>

datatype error = FLOW_OPERATION_INVALID string | TypeError | SyntaxError | Error string

datatype 'a result = Ok 'a | Throw error | OutOfFuel

definition rbind :: "'a result \<Rightarrow> ('a \<Rightarrow> 'b result) \<Rightarrow> 'b result" where
  "rbind m k = (case m of Ok x \<Rightarrow> k x | Throw e \<Rightarrow> Throw e | OutOfFuel \<Rightarrow> OutOfFuel)"

fun mapResult :: "('a \<Rightarrow> 'b result) \<Rightarrow> 'a list \<Rightarrow> 'b list result" where
  "mapResult g [] = Ok []"
| "mapResult g (x # xs) = rbind (g x) (\<lambda>y. rbind (mapResult g xs) (\<lambda>ys. Ok (y # ys)))"

fun foldResult :: "('s \<Rightarrow> 'a \<Rightarrow> 's result) \<Rightarrow> 's \<Rightarrow> 'a list \<Rightarrow> 's result" where
  "foldResult g s [] = Ok s"
| "foldResult g s (x # xs) = rbind (g s x) (\<lambda>s'. foldResult g s' xs)"

text \<open>
  The collaborators the helper imports: the two compiled schema validators
  (\<^verbatim>\<open>TypeCompiler.Compile(...).Check\<close>) and the \<^verbatim>\<open>semver\<close>
  library. \<open>semverLt a b = None\<close> is \<^verbatim>\<open>semver.lt\<close> throwing on an
  invalid version.
\<close>

record env =
  actionSchemaValidator :: "step \<Rightarrow> bool"
  triggerSchemaValidation :: "step \<Rightarrow> bool"
  semverValid :: "string \<Rightarrow> bool"
  semverLt :: "string \<Rightarrow> string \<Rightarrow> bool option"

section \<open>Traversal\<close>

text \<open>
  \<^verbatim>\<open>traverseInternal\<close>: the step, then its structural children (success before
  failure; the router's children in index order), then the steps reached by
  \<^verbatim>\<open>nextAction\<close>. The source's \<^verbatim>\<open>while\<close> loop over
  \<^verbatim>\<open>nextAction\<close> is the last recursive call.
\<close>

fun traverseInternal :: "step \<Rightarrow> step list" where
  "traverseInternal (Leaf p k n) =
     Leaf p k n # (case n of None \<Rightarrow> [] | Some a \<Rightarrow> traverseInternal a)"
| "traverseInternal (Branch p s f n) =
     Branch p s f n # (case s of None \<Rightarrow> [] | Some a \<Rightarrow> traverseInternal a)
       @ (case f of None \<Rightarrow> [] | Some a \<Rightarrow> traverseInternal a)
       @ (case n of None \<Rightarrow> [] | Some a \<Rightarrow> traverseInternal a)"
| "traverseInternal (Loop p b n) =
     Loop p b n # (case b of None \<Rightarrow> [] | Some a \<Rightarrow> traverseInternal a)
       @ (case n of None \<Rightarrow> [] | Some a \<Rightarrow> traverseInternal a)"
| "traverseInternal (Router p cs n) =
     Router p cs n
       # concat (map (\<lambda>c. case c of None \<Rightarrow> [] | Some a \<Rightarrow> traverseInternal a) cs)
       @ (case n of None \<Rightarrow> [] | Some a \<Rightarrow> traverseInternal a)"

definition getAllSteps :: "step \<Rightarrow> step list" where
  "getAllSteps t = traverseInternal t"

definition isValid :: "FlowVersion \<Rightarrow> bool" where
  "isValid flowVersion = list_all (\<lambda>s. valid (props s)) (getAllSteps (trigger flowVersion))"

definition isAction :: "StepType \<Rightarrow> bool" where
  "isAction t = (case t of Action a \<Rightarrow> True | Trigger b \<Rightarrow> False)"

definition isTrigger :: "StepType \<Rightarrow> bool" where
  "isTrigger t = (case t of Action a \<Rightarrow> False | Trigger b \<Rightarrow> True)"

definition getStep :: "FlowVersion \<Rightarrow> string \<Rightarrow> step option" where
  "getStep flowVersion stepName =
     find (\<lambda>s. name (props s) = stepName) (getAllSteps (trigger flowVersion))"

section \<open>Structural rewrite\<close>

definition transferOpt :: "(step \<Rightarrow> step result) \<Rightarrow> step option \<Rightarrow> step option result" where
  "transferOpt rec so =
     (case so of None \<Rightarrow> Ok None | Some a \<Rightarrow> rbind (rec a) (\<lambda>a'. Ok (Some a')))"

text \<open>
  The structural part of \<^verbatim>\<open>transferStep\<close>: the slots of the updated step are
  rewritten in the source's order, an empty slot is left as it is.
\<close>

fun transferSlots :: "(step \<Rightarrow> step result) \<Rightarrow> step \<Rightarrow> step result" where
  "transferSlots rec (Leaf p k n) = Ok (Leaf p k n)"
| "transferSlots rec (Branch p s f n) =
     rbind (transferOpt rec s) (\<lambda>s'.
     rbind (transferOpt rec f) (\<lambda>f'. Ok (Branch p s' f' n)))"
| "transferSlots rec (Loop p b n) =
     rbind (transferOpt rec b) (\<lambda>b'. Ok (Loop p b' n))"
| "transferSlots rec (Router p cs n) =
     rbind (mapResult (transferOpt rec) cs) (\<lambda>cs'. Ok (Router p cs' n))"

text \<open>
  \<^verbatim>\<open>transferStep\<close>: the function is applied to the step, then the recursion
  goes into the slots and the \<^verbatim>\<open>nextAction\<close> of the step it returned. The
  first argument bounds the depth of the recursion.
\<close>

fun transferStep :: "nat \<Rightarrow> (step \<Rightarrow> step result) \<Rightarrow> step \<Rightarrow> step result" where
  "transferStep 0 transferFunction st = OutOfFuel"
| "transferStep (Suc d) transferFunction st =
     rbind (transferFunction st) (\<lambda>updatedStep.
     rbind (transferSlots (\<lambda>c. transferStep d transferFunction c) updatedStep) (\<lambda>u.
     rbind (transferOpt (\<lambda>c. transferStep d transferFunction c) (nextAction u)) (\<lambda>n'.
     Ok (setNextAction n' u))))"

definition transferFlow ::
  "nat \<Rightarrow> FlowVersion \<Rightarrow> (step \<Rightarrow> step result) \<Rightarrow> FlowVersion result" where
  "transferFlow d flowVersion transferFunction =
     rbind (transferStep d transferFunction (trigger flowVersion)) (\<lambda>t.
     Ok (flowVersion\<lparr>trigger := t\<rparr>))"

section \<open>Requests\<close>

text \<open>
  The request types are declared in \<^verbatim>\<open>./flow-operations\<close>, which is not
  among the sources; the records hold the fields the helper reads. The
  \<^verbatim>\<open>name\<close>, \<^verbatim>\<open>displayName\<close>, \<^verbatim>\<open>type\<close>,
  \<^verbatim>\<open>settings\<close> and \<^verbatim>\<open>valid\<close> of an action request are the
  fields \<open>actionName\<close> ... \<open>actionValid\<close>; an absent optional field is
  \<open>None\<close>. \<open>actionType\<close> is the \<^verbatim>\<open>type\<close> as sent, so that a
  step read as a request (as \<^verbatim>\<open>moveAction\<close>, \<^verbatim>\<open>duplicateStep\<close>
  and \<^verbatim>\<open>getImportOperations\<close> do) keeps its own.
\<close>

record UpdateActionRequest =
  actionName :: string
  actionDisplayName :: string
  actionType :: StepType
  actionSettings :: settings
  actionValid :: "bool option"

datatype StepLocationRelativeToParent =
  AFTER | INSIDE_LOOP | INSIDE_TRUE_BRANCH | INSIDE_FALSE_BRANCH | INSIDE_BRANCH

record AddActionRequest =
  parentStep :: string
  stepLocationRelativeToParent :: "StepLocationRelativeToParent option"
  branchIndex :: "int option"
  requestBranchName :: "string option"
  action :: UpdateActionRequest

record MoveActionRequest =
  moveName :: string
  newParentStep :: string
  stepLocationRelativeToNewParent :: "StepLocationRelativeToParent option"
  moveBranchIndex :: "int option"
  moveBranchName :: "string option"

record UpdateTriggerRequest =
  triggerName :: string
  triggerDisplayName :: string
  triggerType :: TriggerType
  triggerSettings :: settings
  triggerValid :: "bool option"

datatype FlowOperationRequest =
    MOVE_ACTION MoveActionRequest
  | LOCK_FLOW
  | CHANGE_NAME string
  | DELETE_ACTION string
  | ADD_ACTION AddActionRequest
  | UPDATE_ACTION UpdateActionRequest
  | UPDATE_TRIGGER UpdateTriggerRequest
  | DUPLICATE_ACTION string
  | DELETE_BRANCH string int
  | ADD_BRANCH string int
  | DUPLICATE_BRANCH string int

text \<open>A step read as an action request: the fields \<^verbatim>\<open>createAction\<close> reads.\<close>

definition asRequest :: "step \<Rightarrow> UpdateActionRequest" where
  "asRequest a =
     \<lparr>actionName = name (props a), actionDisplayName = displayName (props a),
      actionType = stepType a, actionSettings = settings (props a),
      actionValid = Some (valid (props a))\<rparr>"

section \<open>Deleting, creating and adding actions\<close>

definition spliceNext :: "string \<Rightarrow> step option \<Rightarrow> step option" where
  "spliceNext nm slot =
     (case slot of None \<Rightarrow> None
      | Some a \<Rightarrow> if name (props a) = nm then nextAction a else Some a)"

text \<open>The function \<^verbatim>\<open>deleteAction\<close> passes to \<^verbatim>\<open>transferFlow\<close>.\<close>

fun deleteActionStep :: "string \<Rightarrow> step \<Rightarrow> step" where
  "deleteActionStep nm (Leaf p k n) = Leaf p k (spliceNext nm n)"
| "deleteActionStep nm (Branch p s f n) =
     Branch p (spliceNext nm s) (spliceNext nm f) (spliceNext nm n)"
| "deleteActionStep nm (Loop p b n) = Loop p (spliceNext nm b) (spliceNext nm n)"
| "deleteActionStep nm (Router p cs n) = Router p (map (spliceNext nm) cs) (spliceNext nm n)"

definition deleteAction :: "nat \<Rightarrow> FlowVersion \<Rightarrow> string \<Rightarrow> FlowVersion result" where
  "deleteAction d flowVersion nm =
     transferFlow d flowVersion (\<lambda>st. Ok (deleteActionStep nm st))"

text \<open>The second argument of \<^verbatim>\<open>createAction\<close>.\<close>

record ActionSlots =
  slotNextAction :: "step option"
  slotOnFailureAction :: "step option"
  slotOnSuccessAction :: "step option"
  slotFirstLoopAction :: "step option"
  slotChildren :: "step option list option"

text \<open>
  \<^verbatim>\<open>createAction\<close>. Its \<^verbatim>\<open>switch\<close> has a case for each action
  type and none for a trigger type: there the source returns the object
  \<^verbatim>\<open>{valid: false}\<close>, which is no step; the model has no value for it and stops
  with \<open>Error ''no step''\<close> (the source does not throw).
\<close>

definition createAction :: "env \<Rightarrow> UpdateActionRequest \<Rightarrow> ActionSlots \<Rightarrow> step result" where
  "createAction E request slots =
     (let baseProperties =
            \<lparr>name = actionName request, displayName = actionDisplayName request,
             valid = False, settings = actionSettings request\<rparr>;
          finish = (\<lambda>a. Ok (setProps (baseProperties\<lparr>valid :=
                      (case actionValid request of None \<Rightarrow> True | Some v \<Rightarrow> v)
                      \<and> actionSchemaValidator E a\<rparr>) a))
      in case actionType request of
           Action BRANCH \<Rightarrow>
             finish (Branch baseProperties (slotOnSuccessAction slots)
                       (slotOnFailureAction slots) (slotNextAction slots))
         | Action ROUTER \<Rightarrow>
             finish (Router baseProperties
                       (case slotChildren slots of None \<Rightarrow> [None, None] | Some cs \<Rightarrow> cs)
                       (slotNextAction slots))
         | Action LOOP_ON_ITEMS \<Rightarrow>
             finish (Loop baseProperties (slotFirstLoopAction slots) (slotNextAction slots))
         | Action PIECE \<Rightarrow> finish (Leaf baseProperties LEAF_PIECE (slotNextAction slots))
         | Action CODE \<Rightarrow> finish (Leaf baseProperties LEAF_CODE (slotNextAction slots))
         | Trigger t \<Rightarrow> Throw (Error ''no step''))"

definition headSlots :: "step option \<Rightarrow> step option list option \<Rightarrow> ActionSlots" where
  "headSlots n cs =
     \<lparr>slotNextAction = n, slotOnFailureAction = None, slotOnSuccessAction = None,
      slotFirstLoopAction = None, slotChildren = cs\<rparr>"

text \<open>
  Reading and writing a router's \<^verbatim>\<open>children[branchIndex]\<close>. A read out of
  range is \<^verbatim>\<open>undefined\<close>. A write past the end lengthens the array; the
  holes it leaves are \<^verbatim>\<open>null\<close> after the next
  \<^verbatim>\<open>JSON.parse(JSON.stringify(...))\<close> and are \<open>None\<close> here. A write at
  a negative index, or at an index of 4294967295 or more (no array index
  of the language), sets a property that is no element of the array and does not survive
  that copy: the list is unchanged.
\<close>

definition getChild :: "int \<Rightarrow> step option list \<Rightarrow> step option" where
  "getChild i cs = (if 0 \<le> i \<and> nat i < length cs then cs ! nat i else None)"

definition setChild :: "int \<Rightarrow> step option \<Rightarrow> step option list \<Rightarrow> step option list" where
  "setChild i v cs =
     (if i < 0 \<or> 4294967295 \<le> i then cs
      else if nat i < length cs then cs[nat i := v]
      else cs @ replicate (nat i - length cs) None @ [v])"

definition locationName :: "StepLocationRelativeToParent \<Rightarrow> string" where
  "locationName l =
     (case l of AFTER \<Rightarrow> ''AFTER'' | INSIDE_LOOP \<Rightarrow> ''INSIDE_LOOP''
      | INSIDE_TRUE_BRANCH \<Rightarrow> ''INSIDE_TRUE_BRANCH''
      | INSIDE_FALSE_BRANCH \<Rightarrow> ''INSIDE_FALSE_BRANCH''
      | INSIDE_BRANCH \<Rightarrow> ''INSIDE_BRANCH'')"

text \<open>
  The function \<^verbatim>\<open>addAction\<close> passes to \<^verbatim>\<open>transferFlow\<close>, for a
  step whose name is the request's \<^verbatim>\<open>parentStep\<close>. The three composite
  kinds are tried only when \<^verbatim>\<open>stepLocationRelativeToParent\<close> is set; every
  other case falls to the last \<^verbatim>\<open>else\<close>, which inserts after the step.
\<close>

fun addToParent ::
  "env \<Rightarrow> AddActionRequest \<Rightarrow> step option list option \<Rightarrow> step
     \<Rightarrow> StepLocationRelativeToParent option \<Rightarrow> step result" where
  "addToParent E request cs (Loop p b n) (Some l) =
     (if l = INSIDE_LOOP then
        rbind (createAction E (action request) (headSlots b cs)) (\<lambda>a. Ok (Loop p (Some a) n))
      else if l = AFTER then
        rbind (createAction E (action request) (headSlots n cs)) (\<lambda>a. Ok (Loop p b (Some a)))
      else Throw (FLOW_OPERATION_INVALID
             (''Loop step parent '' @ locationName l @ '' not found'')))"
| "addToParent E request cs (Branch p s f n) (Some l) =
     (if l = INSIDE_TRUE_BRANCH then
        rbind (createAction E (action request) (headSlots s cs)) (\<lambda>a. Ok (Branch p (Some a) f n))
      else if l = INSIDE_FALSE_BRANCH then
        rbind (createAction E (action request) (headSlots f cs)) (\<lambda>a. Ok (Branch p s (Some a) n))
      else if l = AFTER then
        rbind (createAction E (action request) (headSlots n cs)) (\<lambda>a. Ok (Branch p s f (Some a)))
      else Throw (FLOW_OPERATION_INVALID
             (''Branch step parernt '' @ locationName l @ '' not found'')))"
| "addToParent E request cs (Router p chs n) (Some l) =
     (if l = INSIDE_BRANCH \<and> branchIndex request \<noteq> None then
        rbind (createAction E (action request)
                 (headSlots (getChild (the (branchIndex request)) chs) cs))
          (\<lambda>a. Ok (Router p (setChild (the (branchIndex request)) (Some a) chs) n))
      else if l = AFTER then
        rbind (createAction E (action request) (headSlots n cs)) (\<lambda>a. Ok (Router p chs (Some a)))
      else Throw (FLOW_OPERATION_INVALID
             (''Branch step parernt '' @ locationName l @ '' not found'')))"
| "addToParent E request cs st l =
     rbind (createAction E (action request) (headSlots (nextAction st) cs))
       (\<lambda>a. Ok (setNextAction (Some a) st))"

definition addActionStep ::
  "env \<Rightarrow> AddActionRequest \<Rightarrow> step option list option \<Rightarrow> step \<Rightarrow> step result" where
  "addActionStep E request cs st =
     (if name (props st) \<noteq> parentStep request then Ok st
      else addToParent E request cs st (stepLocationRelativeToParent request))"

definition addAction ::
  "nat \<Rightarrow> env \<Rightarrow> FlowVersion \<Rightarrow> AddActionRequest \<Rightarrow> step option list option
     \<Rightarrow> FlowVersion result" where
  "addAction d E flowVersion request cs =
     transferFlow d flowVersion (addActionStep E request cs)"

section \<open>Updating actions and the trigger\<close>

definition extractActions :: "step \<Rightarrow> ActionSlots" where
  "extractActions st =
     \<lparr>slotNextAction = nextAction st,
      slotOnFailureAction = (case st of Branch p s f n \<Rightarrow> f | _ \<Rightarrow> None),
      slotOnSuccessAction = (case st of Branch p s f n \<Rightarrow> s | _ \<Rightarrow> None),
      slotFirstLoopAction = (case st of Loop p b n \<Rightarrow> b | _ \<Rightarrow> None),
      slotChildren = (case st of Router p cs n \<Rightarrow> Some cs | _ \<Rightarrow> None)\<rparr>"

definition updateSlot ::
  "env \<Rightarrow> UpdateActionRequest \<Rightarrow> step option \<Rightarrow> step option result" where
  "updateSlot E request slot =
     (case slot of None \<Rightarrow> Ok None
      | Some a \<Rightarrow>
          if name (props a) = actionName request
          then rbind (createAction E request (extractActions a)) (\<lambda>a'. Ok (Some a'))
          else Ok slot)"

text \<open>
  In a router, \<^verbatim>\<open>findIndex\<close> gives the first child of the requested name,
  and only that child is replaced.
\<close>

fun updateFirstChild ::
  "env \<Rightarrow> UpdateActionRequest \<Rightarrow> step option list \<Rightarrow> step option list result" where
  "updateFirstChild E request [] = Ok []"
| "updateFirstChild E request (None # cs) =
     rbind (updateFirstChild E request cs) (\<lambda>cs'. Ok (None # cs'))"
| "updateFirstChild E request (Some a # cs) =
     (if name (props a) = actionName request
      then rbind (createAction E request (extractActions a)) (\<lambda>a'. Ok (Some a' # cs))
      else rbind (updateFirstChild E request cs) (\<lambda>cs'. Ok (Some a # cs')))"

text \<open>
  The function \<^verbatim>\<open>updateAction\<close> passes to \<^verbatim>\<open>transferFlow\<close>:
  the \<^verbatim>\<open>nextAction\<close> first, then the slots of the step's kind (in a branch
  the failure slot before the success slot).
\<close>

fun updateKindSlots :: "env \<Rightarrow> UpdateActionRequest \<Rightarrow> step \<Rightarrow> step result" where
  "updateKindSlots E request (Leaf p k n) = Ok (Leaf p k n)"
| "updateKindSlots E request (Router p cs n) =
     rbind (updateFirstChild E request cs) (\<lambda>cs'. Ok (Router p cs' n))"
| "updateKindSlots E request (Branch p s f n) =
     rbind (updateSlot E request f) (\<lambda>f'.
     rbind (updateSlot E request s) (\<lambda>s'. Ok (Branch p s' f' n)))"
| "updateKindSlots E request (Loop p b n) =
     rbind (updateSlot E request b) (\<lambda>b'. Ok (Loop p b' n))"

definition updateActionStep :: "env \<Rightarrow> UpdateActionRequest \<Rightarrow> step \<Rightarrow> step result" where
  "updateActionStep E request st =
     rbind (updateSlot E request (nextAction st)) (\<lambda>n'.
     updateKindSlots E request (setNextAction n' st))"

definition updateAction ::
  "nat \<Rightarrow> env \<Rightarrow> FlowVersion \<Rightarrow> UpdateActionRequest \<Rightarrow> FlowVersion result" where
  "updateAction d E flowVersion request =
     transferFlow d flowVersion (updateActionStep E request)"

definition createTrigger ::
  "env \<Rightarrow> string \<Rightarrow> UpdateTriggerRequest \<Rightarrow> step option \<Rightarrow> step" where
  "createTrigger E nm request n =
     (let baseProperties =
            \<lparr>name = nm, displayName = triggerDisplayName request, valid = False,
             settings = triggerSettings request\<rparr>;
          t = (case triggerType request of
                 EMPTY \<Rightarrow> Leaf baseProperties LEAF_EMPTY n
               | PIECE_TRIGGER \<Rightarrow> Leaf baseProperties LEAF_PIECE_TRIGGER n)
      in setProps (baseProperties\<lparr>valid :=
           (case triggerValid request of None \<Rightarrow> True | Some v \<Rightarrow> v)
           \<and> triggerSchemaValidation E t\<rparr>) t)"

section \<open>Import operations\<close>

text \<open>
  \<^verbatim>\<open>removeAnySubsequentAction\<close>: the slots of a branch and of a loop and the
  \<^verbatim>\<open>nextAction\<close> are deleted; the children of a router are kept, each
  stripped in the same way.
\<close>

fun removeAnySubsequentAction :: "step \<Rightarrow> step" where
  "removeAnySubsequentAction (Leaf p k n) = Leaf p k None"
| "removeAnySubsequentAction (Branch p s f n) = Branch p None None None"
| "removeAnySubsequentAction (Loop p b n) = Loop p None None"
| "removeAnySubsequentAction (Router p cs n) =
     Router p
       (map (\<lambda>c. case c of None \<Rightarrow> None | Some a \<Rightarrow> Some (removeAnySubsequentAction a)) cs)
       None"

fun showNat :: "nat \<Rightarrow> string" where
  "showNat n =
     (if n < 10 then [''0123456789'' ! n]
      else showNat (n div 10) @ [''0123456789'' ! (n mod 10)])"

definition importRequest ::
  "string \<Rightarrow> StepLocationRelativeToParent option \<Rightarrow> int option \<Rightarrow> string option \<Rightarrow> step
     \<Rightarrow> AddActionRequest" where
  "importRequest parent l i b a =
     \<lparr>parentStep = parent, stepLocationRelativeToParent = l, branchIndex = i,
      requestBranchName = b, action = asRequest (removeAnySubsequentAction a)\<rparr>"

text \<open>
  \<^verbatim>\<open>getImportOperations\<close>. Every operation it returns is an
  \<^verbatim>\<open>ADD_ACTION\<close>, so the list holds the requests. For each step of the
  \<^verbatim>\<open>nextAction\<close> chain: the operation for its \<^verbatim>\<open>nextAction\<close>
  (with no location), then those of its slots (in a branch the failure slot first), and
  the chain goes on with the \<^verbatim>\<open>nextAction\<close>.
\<close>

function getImportOperations :: "step \<Rightarrow> AddActionRequest list" where
  "getImportOperations (Leaf p k n) =
     (case n of None \<Rightarrow> []
      | Some a \<Rightarrow> importRequest (name p) None None None a # getImportOperations a)"
| "getImportOperations (Branch p s f n) =
     (case n of None \<Rightarrow> [] | Some a \<Rightarrow> [importRequest (name p) None None None a])
     @ (case f of None \<Rightarrow> []
        | Some a \<Rightarrow> importRequest (name p) (Some INSIDE_FALSE_BRANCH) None None a
                    # getImportOperations a)
     @ (case s of None \<Rightarrow> []
        | Some a \<Rightarrow> importRequest (name p) (Some INSIDE_TRUE_BRANCH) None None a
                    # getImportOperations a)
     @ (case n of None \<Rightarrow> [] | Some a \<Rightarrow> getImportOperations a)"
| "getImportOperations (Loop p b n) =
     (case n of None \<Rightarrow> [] | Some a \<Rightarrow> [importRequest (name p) None None None a])
     @ (case b of None \<Rightarrow> []
        | Some a \<Rightarrow> importRequest (name p) (Some INSIDE_LOOP) None None a
                    # getImportOperations a)
     @ (case n of None \<Rightarrow> [] | Some a \<Rightarrow> getImportOperations a)"
| "getImportOperations (Router p cs n) =
     (case n of None \<Rightarrow> [] | Some a \<Rightarrow> [importRequest (name p) None None None a])
     @ concat (map (\<lambda>(i, c). case c of None \<Rightarrow> []
          | Some a \<Rightarrow>
              importRequest (name p) (Some INSIDE_BRANCH) (Some (int i))
                (Some (''Branch '' @ showNat i)) a
              # getImportOperations a) (zip [0..<length cs] cs))
     @ (case n of None \<Rightarrow> [] | Some a \<Rightarrow> getImportOperations a)"
  by pat_completeness auto
termination
  by (relation "measure size")
    (auto dest!: set_zip_rightD
       size_list_estimation' [where f = "size_option size", OF _ order_refl])

section \<open>Normalization and the piece version\<close>

definition startsWith :: "char \<Rightarrow> string \<Rightarrow> bool" where
  "startsWith c v = (case v of [] \<Rightarrow> False | x # xs \<Rightarrow> x = c)"

definition isLegacyApp :: "env \<Rightarrow> string \<Rightarrow> string \<Rightarrow> bool result" where
  "isLegacyApp E pn pv =
     (let newVersion =
            (if startsWith (CHR ''^'') pv \<or> startsWith (CHR ''~'') pv then tl pv else pv)
      in if pn = ''@activepieces/piece-google-sheets'' \<or> pn = ''@activepieces/piece-gmail''
         then (case semverLt E newVersion ''0.3.0'' of
                 None \<Rightarrow> Throw TypeError | Some b \<Rightarrow> Ok b)
         else Ok False)"

definition setPieceVersion :: "string \<Rightarrow> props \<Rightarrow> props" where
  "setPieceVersion v p = p\<lparr>settings := (settings p)\<lparr>pieceVersion := v\<rparr>\<rparr>"

definition upgradePiece :: "env \<Rightarrow> step \<Rightarrow> string \<Rightarrow> step result" where
  "upgradePiece E st stepName =
     (if name (props st) \<noteq> stepName then Ok st
      else case st of
        Leaf p k n \<Rightarrow>
          if k = LEAF_PIECE \<or> k = LEAF_PIECE_TRIGGER then
            rbind (isLegacyApp E (pieceName (settings p)) (pieceVersion (settings p)))
              (\<lambda>legacy.
                 if legacy then Ok st
                 else if startsWith (CHR ''^'') (pieceVersion (settings p))
                       \<or> startsWith (CHR ''~'') (pieceVersion (settings p)) then Ok st
                 else if semverValid E (pieceVersion (settings p)) then
                   (case semverLt E (pieceVersion (settings p)) ''1.0.0'' of
                      None \<Rightarrow> Throw TypeError
                    | Some True \<Rightarrow>
                        Ok (Leaf (setPieceVersion (CHR ''~'' # pieceVersion (settings p)) p) k n)
                    | Some False \<Rightarrow>
                        Ok (Leaf (setPieceVersion (CHR ''^'' # pieceVersion (settings p)) p) k n))
                 else Ok (Leaf (setPieceVersion (CHR ''^'' # pieceVersion (settings p)) p) k n))
          else Ok st
      | _ \<Rightarrow> Ok st)"

text \<open>The truth value the language gives a JSON value in a condition.\<close>

definition truthy :: "json \<Rightarrow> bool" where
  "truthy v =
     (case v of JNull \<Rightarrow> False | JBool b \<Rightarrow> b | JNum i \<Rightarrow> i \<noteq> 0 | JStr t \<Rightarrow> t \<noteq> []
      | JArr xs \<Rightarrow> True | JObj kvs \<Rightarrow> True)"

text \<open>
  \<^verbatim>\<open>settings.input.auth\<close>: the property of an object (the first entry of
  that key), \<^verbatim>\<open>undefined\<close> for every other input.
\<close>

definition getAuth :: "settings \<Rightarrow> json option" where
  "getAuth st = (case input st of Some (JObj kvs) \<Rightarrow> map_of kvs ''auth'' | _ \<Rightarrow> None)"

fun setKey :: "string \<Rightarrow> json \<Rightarrow> (string \<times> json) list \<Rightarrow> (string \<times> json) list" where
  "setKey k v [] = [(k, v)]"
| "setKey k v ((k', v') # kvs) = (if k' = k then (k, v) # kvs else (k', v') # setKey k v kvs)"

definition setAuth :: "json \<Rightarrow> settings \<Rightarrow> settings" where
  "setAuth v st =
     (case input st of Some (JObj kvs) \<Rightarrow> st\<lparr>input := Some (JObj (setKey ''auth'' v kvs))\<rparr>
      | _ \<Rightarrow> st)"

definition isPieceStep :: "step \<Rightarrow> bool" where
  "isPieceStep st = (stepType st = Action PIECE \<or> stepType st = Trigger PIECE_TRIGGER)"

text \<open>The function \<^verbatim>\<open>normalize\<close> passes to \<^verbatim>\<open>transferFlow\<close>.\<close>

definition normalizeStep :: "env \<Rightarrow> step \<Rightarrow> step result" where
  "normalizeStep E st =
     (let s1 = (settings (props st))\<lparr>inputUiInfo := Some DEFAULT_SAMPLE_DATA_SETTINGS\<rparr>;
          s2 = (case getAuth s1 of
                  Some a \<Rightarrow> if truthy a \<and> isPieceStep st then setAuth (JStr []) s1 else s1
                | None \<Rightarrow> s1);
          clonedStep = setProps ((props st)\<lparr>settings := s2\<rparr>) st
      in upgradePiece E clonedStep (name (props clonedStep)))"

definition normalize :: "nat \<Rightarrow> env \<Rightarrow> FlowVersion \<Rightarrow> FlowVersion result" where
  "normalize d E flowVersion = transferFlow d flowVersion (normalizeStep E)"

section \<open>Router branches\<close>

text \<open>
  \<^verbatim>\<open>Array.prototype.splice\<close>: a negative start counts from the end, and the
  start is clamped to the array.
\<close>

definition spliceStart :: "int \<Rightarrow> nat \<Rightarrow> nat" where
  "spliceStart i len = (if i < 0 then nat (max (int len + i) 0) else min (nat i) len)"

definition spliceInsert :: "int \<Rightarrow> 'a \<Rightarrow> 'a list \<Rightarrow> 'a list" where
  "spliceInsert i x xs =
     take (spliceStart i (length xs)) xs @ [x] @ drop (spliceStart i (length xs)) xs"

definition spliceDelete :: "int \<Rightarrow> 'a list \<Rightarrow> 'a list" where
  "spliceDelete i xs =
     take (spliceStart i (length xs)) xs @ drop (Suc (spliceStart i (length xs))) xs"

definition createEmptyBranch :: "nat \<Rightarrow> RouterBranch" where
  "createEmptyBranch pathNumber =
     \<lparr>conditions = [[emptyCondition]], branchType = CONDITION,
      branchName = ''Branch '' @ showNat pathNumber\<rparr>"

definition setBranches :: "RouterBranch list \<Rightarrow> props \<Rightarrow> props" where
  "setBranches bs p = p\<lparr>settings := (settings p)\<lparr>branches := bs\<rparr>\<rparr>"

text \<open>
  The functions the \<^verbatim>\<open>DELETE_BRANCH\<close> and \<^verbatim>\<open>ADD_BRANCH\<close> cases
  pass to \<^verbatim>\<open>transferFlow\<close>: both look at the \<^verbatim>\<open>nextAction\<close>
  of the step only.
\<close>

definition deleteBranchStep :: "string \<Rightarrow> int \<Rightarrow> step \<Rightarrow> step" where
  "deleteBranchStep stepName i st =
     (case nextAction st of
        Some (Router p cs n) \<Rightarrow>
          if name p = stepName
          then setNextAction
                 (Some (Router (setBranches (spliceDelete i (branches (settings p))) p)
                          (spliceDelete i cs) n)) st
          else st
      | _ \<Rightarrow> st)"

definition addBranchStep :: "string \<Rightarrow> int \<Rightarrow> step \<Rightarrow> step" where
  "addBranchStep stepName i st =
     (case nextAction st of
        Some (Router p cs n) \<Rightarrow>
          if name p = stepName
          then setNextAction
                 (Some (Router
                          (setBranches
                             (spliceInsert i (createEmptyBranch (length (branches (settings p))))
                                (branches (settings p))) p)
                          (spliceInsert i None cs) n)) st
          else st
      | _ \<Rightarrow> st)"

section \<open>Fresh names and references\<close>

text \<open>
  \<^verbatim>\<open>findUnusedName\<close>: the loop counts up from 1 until the name is unused.
\<close>

partial_function (option) findUnusedFrom :: "string list \<Rightarrow> string \<Rightarrow> nat \<Rightarrow> string option" where
  "findUnusedFrom names stepPrefix availableNumber =
     (if stepPrefix @ ''_'' @ showNat availableNumber \<in> set names
      then findUnusedFrom names stepPrefix (Suc availableNumber)
      else Some (stepPrefix @ ''_'' @ showNat availableNumber))"

declare findUnusedFrom.simps [code]

definition findUnusedName :: "string list \<Rightarrow> string \<Rightarrow> string option" where
  "findUnusedName names stepPrefix = findUnusedFrom names stepPrefix 1"

definition findAvailableStepName :: "FlowVersion \<Rightarrow> string \<Rightarrow> string option" where
  "findAvailableStepName flowVersion stepPrefix =
     findUnusedName (map (\<lambda>f. name (props f)) (getAllSteps (trigger flowVersion))) stepPrefix"

text \<open>
  \<^verbatim>\<open>replaceOldStepNameWithNewOne\<close>. The pattern
  \<^verbatim>\<open>/{{(.*?)}}/g\<close> finds, from left to right, the spans from
  \<^verbatim>\<open>{{\<close> to the first \<^verbatim>\<open>}}\<close> with no line break between; in
  the content of each, every occurrence of the old name between two word boundaries is
  replaced. The old name is read as it stands (a name with characters that mean something
  in a regular expression is outside this model), and so is the new one. The counter of
  \<open>replaceWords\<close> and \<open>replaceSpans\<close> is the number of characters still to
  skip after a match.
\<close>

definition isWordChar :: "char \<Rightarrow> bool" where
  "isWordChar c =
     (c \<in> set ''abcdefghijklmnopqrstuvwxyzABCDEFGHIJKLMNOPQRSTUVWXYZ0123456789_'')"

definition wordBoundary :: "char option \<Rightarrow> char option \<Rightarrow> bool" where
  "wordBoundary a b =
     ((case a of None \<Rightarrow> False | Some c \<Rightarrow> isWordChar c)
        \<noteq> (case b of None \<Rightarrow> False | Some c \<Rightarrow> isWordChar c))"

definition matchesAt :: "string \<Rightarrow> char option \<Rightarrow> string \<Rightarrow> bool" where
  "matchesAt old prev t =
     (old \<noteq> [] \<and> take (length old) t = old
      \<and> wordBoundary prev (Some (hd old))
      \<and> wordBoundary (Some (last old))
           (case drop (length old) t of [] \<Rightarrow> None | c # cs \<Rightarrow> Some c))"

fun replaceWords :: "string \<Rightarrow> string \<Rightarrow> nat \<Rightarrow> char option \<Rightarrow> string \<Rightarrow> string" where
  "replaceWords old new k prev [] = []"
| "replaceWords old new (Suc k) prev (c # cs) = replaceWords old new k (Some c) cs"
| "replaceWords old new 0 prev (c # cs) =
     (if matchesAt old prev (c # cs)
      then new @ replaceWords old new (length old - 1) (Some c) cs
      else c # replaceWords old new 0 (Some c) cs)"

fun findClose :: "string \<Rightarrow> string option" where
  "findClose [] = None"
| "findClose (c # cs) =
     (if take 2 (c # cs) = ''}}'' then Some []
      else if c = CHR 0x0A \<or> c = CHR 0x0D then None
      else map_option (\<lambda>t. c # t) (findClose cs))"

fun replaceSpans :: "(string \<Rightarrow> string) \<Rightarrow> nat \<Rightarrow> string \<Rightarrow> string" where
  "replaceSpans g k [] = []"
| "replaceSpans g (Suc k) (c # cs) = replaceSpans g k cs"
| "replaceSpans g 0 (c # cs) =
     (case (if take 2 (c # cs) = ''{{'' then findClose (drop 1 cs) else None) of
        Some content \<Rightarrow> ''{{'' @ g content @ ''}}'' @ replaceSpans g (length content + 3) cs
      | None \<Rightarrow> c # replaceSpans g 0 cs)"

definition replaceOldStepNameWithNewOne :: "string \<Rightarrow> string \<Rightarrow> string \<Rightarrow> string" where
  "replaceOldStepNameWithNewOne t oldStepName newStepName =
     replaceSpans (replaceWords oldStepName newStepName 0 None) 0 t"

text \<open>
  Modelled from the spec: \<^verbatim>\<open>applyFunctionToValuesSync\<close> is imported from
  \<^verbatim>\<open>../common\<close>, which is not among the sources. The spec: the rewriter
  operates on arbitrary JSON values; non-string values recurse structurally. The function
  is applied to every value that is neither an array nor an object.
\<close>

fun applyFunctionToValuesSync :: "(json \<Rightarrow> json) \<Rightarrow> json \<Rightarrow> json" where
  "applyFunctionToValuesSync g (JArr xs) = JArr (map (applyFunctionToValuesSync g) xs)"
| "applyFunctionToValuesSync g (JObj kvs) =
     JObj (map (\<lambda>kv. (fst kv, applyFunctionToValuesSync g (snd kv))) kvs)"
| "applyFunctionToValuesSync g v = g v"

fun allocateNames ::
  "string list \<Rightarrow> string list \<Rightarrow> (string \<times> string) list \<Rightarrow> (string \<times> string) list option" where
  "allocateNames [] existingNames m = Some m"
| "allocateNames (n # ns) existingNames m =
     (case findUnusedName existingNames ''step'' of
        None \<Rightarrow> None
      | Some newName \<Rightarrow> allocateNames ns (existingNames @ [newName]) ((n, newName) # m))"

definition newNameOf :: "(string \<times> string) list \<Rightarrow> string \<Rightarrow> string" where
  "newNameOf m n = (case map_of m n of Some x \<Rightarrow> x | None \<Rightarrow> n)"

text \<open>
  The function \<^verbatim>\<open>duplicateStep\<close> and \<^verbatim>\<open>duplicateRouterChild\<close>
  pass to \<^verbatim>\<open>transferStep\<close>. \<open>m\<close> is
  \<^verbatim>\<open>oldNameToNewName\<close>, the latest entry of a name first; every name of the
  copy is a key of it.
\<close>

definition renameStep :: "(string \<times> string) list \<Rightarrow> string list \<Rightarrow> step \<Rightarrow> step" where
  "renameStep m oldStepsNameToReplace st =
     (let p = props st;
          ui = map_option
                 (\<lambda>u. u\<lparr>currentSelectedData := None, sampleDataFileId := None,
                         lastTestDate := None\<rparr>)
                 (inputUiInfo (settings p));
          inp = fold (\<lambda>oldName i.
                   map_option (applyFunctionToValuesSync
                     (\<lambda>v. case v of
                             JStr t \<Rightarrow> JStr (replaceOldStepNameWithNewOne t oldName
                                                (newNameOf m oldName))
                           | _ \<Rightarrow> v)) i)
                 oldStepsNameToReplace (input (settings p))
      in setProps
           (p\<lparr>displayName := displayName p @ '' Copy'', name := newNameOf m (name p),
              settings := (settings p)\<lparr>inputUiInfo := ui, input := inp\<rparr>\<rparr>) st)"

section \<open>The dispatcher and the operations that replay\<close>

text \<open>
  The \<^verbatim>\<open>ADD_ACTION\<close> case of \<^verbatim>\<open>apply\<close>, and
  \<^verbatim>\<open>apply\<close> on an \<^verbatim>\<open>ADD_ACTION\<close> (the case, then the
  validity of the flow): \<^verbatim>\<open>moveAction\<close>, \<^verbatim>\<open>duplicateStep\<close>
  and \<^verbatim>\<open>duplicateRouterChild\<close> call \<^verbatim>\<open>flowHelper.apply\<close> on
  the operations of \<^verbatim>\<open>getImportOperations\<close>, which are of that type.
\<close>

definition addActionOperation ::
  "nat \<Rightarrow> env \<Rightarrow> FlowVersion \<Rightarrow> AddActionRequest \<Rightarrow> FlowVersion result" where
  "addActionOperation d E flowVersion request =
     rbind (addAction d E flowVersion request None) (\<lambda>fv.
     transferFlow d fv (\<lambda>st. upgradePiece E st (actionName (action request))))"

definition applyImportOperation ::
  "nat \<Rightarrow> env \<Rightarrow> FlowVersion \<Rightarrow> AddActionRequest \<Rightarrow> FlowVersion result" where
  "applyImportOperation d E flowVersion request =
     rbind (addActionOperation d E flowVersion request) (\<lambda>clonedVersion.
     Ok (clonedVersion\<lparr>flowValid := isValid clonedVersion\<rparr>))"

text \<open>
  \<^verbatim>\<open>moveAction\<close>. The operations of a loop or branch source are those of its
  copy without \<^verbatim>\<open>nextAction\<close>; the \<^verbatim>\<open>branchIndex\<close> and
  \<^verbatim>\<open>branchName\<close> the replay adds are properties of the operation, not of
  its request, and \<^verbatim>\<open>apply\<close> does not read them.
\<close>

definition moveAction ::
  "nat \<Rightarrow> env \<Rightarrow> FlowVersion \<Rightarrow> MoveActionRequest \<Rightarrow> FlowVersion result" where
  "moveAction d E flowVersion request =
     (let steps = getAllSteps (trigger flowVersion) in
      case find (\<lambda>s. name (props s) = moveName request) steps of
        None \<Rightarrow> Throw (FLOW_OPERATION_INVALID
                   (''Source step '' @ moveName request @ '' not found''))
      | Some sourceStep \<Rightarrow>
          if \<not> isAction (stepType sourceStep)
          then Throw (FLOW_OPERATION_INVALID
                 (''Source step '' @ moveName request @ '' not found''))
          else (case find (\<lambda>s. name (props s) = newParentStep request) steps of
            None \<Rightarrow> Throw (FLOW_OPERATION_INVALID
                       (''Destination step '' @ newParentStep request @ '' not found''))
          | Some destinationStep \<Rightarrow>
              (let childOperation =
                     (case sourceStep of
                        Loop p b n \<Rightarrow> getImportOperations (setNextAction None sourceStep)
                      | Branch p s f n \<Rightarrow> getImportOperations (setNextAction None sourceStep)
                      | _ \<Rightarrow> [])
               in rbind (deleteAction d flowVersion (moveName request)) (\<lambda>fv1.
                  rbind (addAction d E fv1
                           \<lparr>parentStep = newParentStep request,
                            stepLocationRelativeToParent = stepLocationRelativeToNewParent request,
                            branchIndex = moveBranchIndex request,
                            requestBranchName = moveBranchName request,
                            action = asRequest sourceStep\<rparr>
                           (case sourceStep of Router p cs n \<Rightarrow> Some cs | _ \<Rightarrow> None)) (\<lambda>fv2.
                  foldResult (applyImportOperation d E) fv2 childOperation)))))"

text \<open>
  \<^verbatim>\<open>duplicateStep\<close>. For a name no step has, \<^verbatim>\<open>getStep\<close>
  returns \<^verbatim>\<open>undefined\<close>, \<^verbatim>\<open>JSON.stringify\<close> of it is
  \<^verbatim>\<open>undefined\<close>, and \<^verbatim>\<open>JSON.parse\<close> of that throws a
  \<^verbatim>\<open>SyntaxError\<close>: the statements after it, the source's own check of the
  copy among them, are not reached. A search for a fresh name that does not end is
  \<open>OutOfFuel\<close>.
\<close>

definition duplicateStep ::
  "nat \<Rightarrow> env \<Rightarrow> string \<Rightarrow> FlowVersion \<Rightarrow> FlowVersion result" where
  "duplicateStep d E stepName flowVersionWithArtifacts =
     (case getStep flowVersionWithArtifacts stepName of
        None \<Rightarrow> Throw SyntaxError
      | Some found \<Rightarrow>
          (let clonedStep = setNextAction None found;
               existingNames = map (\<lambda>s. name (props s))
                                 (getAllSteps (trigger flowVersionWithArtifacts));
               oldStepsNameToReplace = map (\<lambda>s. name (props s)) (getAllSteps clonedStep)
           in case allocateNames oldStepsNameToReplace existingNames [] of
                None \<Rightarrow> OutOfFuel
              | Some m \<Rightarrow>
                  rbind (transferStep d (\<lambda>s. Ok (renameStep m oldStepsNameToReplace s))
                           clonedStep) (\<lambda>duplicatedStep.
                  rbind (addAction d E flowVersionWithArtifacts
                           \<lparr>parentStep = stepName,
                            stepLocationRelativeToParent = Some AFTER,
                            branchIndex = None, requestBranchName = None,
                            action = asRequest duplicatedStep\<rparr>
                           (case duplicatedStep of
                              Router p cs n \<Rightarrow> Some (map (\<lambda>c. None) cs)
                            | _ \<Rightarrow> None)) (\<lambda>finalFlow.
                  foldResult (applyImportOperation d E) finalFlow
                    (getImportOperations duplicatedStep)))))"

definition atIndex :: "int \<Rightarrow> 'a list \<Rightarrow> 'a option" where
  "atIndex i xs = (if 0 \<le> i \<and> nat i < length xs then Some (xs ! nat i) else None)"

fun firstUpdated :: "step option list \<Rightarrow> step option list \<Rightarrow> step option list option" where
  "firstUpdated (Some a # rs) (c # cs) = Some (Some a # cs)"
| "firstUpdated (None # rs) (c # cs) = map_option (\<lambda>cs'. c # cs') (firstUpdated rs cs)"
| "firstUpdated rs cs = None"

text \<open>
  The step \<^verbatim>\<open>getStep\<close> returns is an object of the flow, and
  \<^verbatim>\<open>duplicateRouterChild\<close> changes it in place. \<open>updateFirstNamed\<close>
  rewrites the first step of a name, in the order of \<^verbatim>\<open>traverseInternal\<close>.
\<close>

fun updateFirstNamed :: "string \<Rightarrow> (step \<Rightarrow> step) \<Rightarrow> step \<Rightarrow> step option" where
  "updateFirstNamed nm g (Leaf p k n) =
     (if name p = nm then Some (g (Leaf p k n))
      else case n of None \<Rightarrow> None
           | Some a \<Rightarrow> map_option (\<lambda>a'. Leaf p k (Some a')) (updateFirstNamed nm g a))"
| "updateFirstNamed nm g (Branch p s f n) =
     (if name p = nm then Some (g (Branch p s f n))
      else case (case s of None \<Rightarrow> None | Some a \<Rightarrow> updateFirstNamed nm g a) of
             Some a' \<Rightarrow> Some (Branch p (Some a') f n)
           | None \<Rightarrow>
               (case (case f of None \<Rightarrow> None | Some a \<Rightarrow> updateFirstNamed nm g a) of
                  Some a' \<Rightarrow> Some (Branch p s (Some a') n)
                | None \<Rightarrow>
                    (case n of None \<Rightarrow> None
                     | Some a \<Rightarrow>
                         map_option (\<lambda>a'. Branch p s f (Some a')) (updateFirstNamed nm g a))))"
| "updateFirstNamed nm g (Loop p b n) =
     (if name p = nm then Some (g (Loop p b n))
      else case (case b of None \<Rightarrow> None | Some a \<Rightarrow> updateFirstNamed nm g a) of
             Some a' \<Rightarrow> Some (Loop p (Some a') n)
           | None \<Rightarrow>
               (case n of None \<Rightarrow> None
                | Some a \<Rightarrow> map_option (\<lambda>a'. Loop p b (Some a')) (updateFirstNamed nm g a)))"
| "updateFirstNamed nm g (Router p cs n) =
     (if name p = nm then Some (g (Router p cs n))
      else case firstUpdated
                  (map (\<lambda>c. case c of None \<Rightarrow> None | Some a \<Rightarrow> updateFirstNamed nm g a) cs)
                  cs of
             Some cs' \<Rightarrow> Some (Router p cs' n)
           | None \<Rightarrow>
               (case n of None \<Rightarrow> None
                | Some a \<Rightarrow> map_option (\<lambda>a'. Router p cs (Some a')) (updateFirstNamed nm g a)))"

text \<open>
  \<^verbatim>\<open>duplicateRouterChild\<close>. A step that is no router has no
  \<^verbatim>\<open>children\<close>, and the read of its element throws a
  \<^verbatim>\<open>TypeError\<close>; an index outside the children or the branches gives
  \<^verbatim>\<open>undefined\<close>, and \<^verbatim>\<open>JSON.parse\<close> throws as in
  \<^verbatim>\<open>duplicateStep\<close>.
\<close>

definition duplicateRouterChild ::
  "nat \<Rightarrow> env \<Rightarrow> string \<Rightarrow> int \<Rightarrow> FlowVersion \<Rightarrow> FlowVersion result" where
  "duplicateRouterChild d E routerName childIndex flowVersionWithArtifacts =
     (case getStep flowVersionWithArtifacts routerName of
        None \<Rightarrow> Throw (Error (''step with name '' @ [CHR 0x27] @ routerName @ [CHR 0x27]
                                @ '' not found''))
      | Some (Router p cs n) \<Rightarrow>
          (let existingNames = map (\<lambda>s. name (props s))
                                 (getAllSteps (trigger flowVersionWithArtifacts)) in
           case atIndex childIndex cs of
             None \<Rightarrow> Throw SyntaxError
           | Some clonedChildStep \<Rightarrow>
               (case atIndex childIndex (branches (settings p)) of
                  None \<Rightarrow> Throw SyntaxError
                | Some b \<Rightarrow>
                    (let duplicatedBranch = b\<lparr>branchName := branchName b @ '' Copy''\<rparr>;
                         routerStep =
                           Router (setBranches
                                     (spliceInsert (- 1) duplicatedBranch (branches (settings p))) p)
                             (spliceInsert (- 1) None cs) n;
                         changed =
                           flowVersionWithArtifacts\<lparr>trigger :=
                             (case updateFirstNamed routerName (\<lambda>r. routerStep)
                                     (trigger flowVersionWithArtifacts) of
                                Some t \<Rightarrow> t | None \<Rightarrow> trigger flowVersionWithArtifacts)\<rparr>
                     in case clonedChildStep of
                          None \<Rightarrow> Ok changed
                        | Some child \<Rightarrow>
                            (let oldStepsNameToReplace =
                                   map (\<lambda>s. name (props s)) (getAllSteps child)
                             in case allocateNames oldStepsNameToReplace existingNames [] of
                                  None \<Rightarrow> OutOfFuel
                                | Some m \<Rightarrow>
                                    rbind (transferStep d
                                             (\<lambda>s. Ok (renameStep m oldStepsNameToReplace s)) child)
                                      (\<lambda>duplicatedStep.
                                    rbind (addAction d E changed
                                             \<lparr>parentStep = routerName,
                                              stepLocationRelativeToParent = Some INSIDE_BRANCH,
                                              branchIndex = Some (int (length (children routerStep)) - 2),
                                              requestBranchName = None,
                                              action = asRequest duplicatedStep\<rparr> None)
                                      (\<lambda>finalFlow.
                                    foldResult (applyImportOperation d E) finalFlow
                                      (getImportOperations duplicatedStep)))))))
      | Some other \<Rightarrow> Throw TypeError)"

text \<open>
  \<^verbatim>\<open>flowHelper.apply\<close>: the case of the operation, then the validity of the
  flow. The first argument bounds the depth of every \<^verbatim>\<open>transferStep\<close> of
  the call.
\<close>

definition flowHelper_apply ::
  "nat \<Rightarrow> env \<Rightarrow> FlowVersion \<Rightarrow> FlowOperationRequest \<Rightarrow> FlowVersion result" where
  "flowHelper_apply d E flowVersion operation =
     rbind
       (case operation of
          MOVE_ACTION request \<Rightarrow> moveAction d E flowVersion request
        | LOCK_FLOW \<Rightarrow> Ok (flowVersion\<lparr>state := LOCKED\<rparr>)
        | CHANGE_NAME newName \<Rightarrow> Ok (flowVersion\<lparr>flowDisplayName := newName\<rparr>)
        | DELETE_ACTION nm \<Rightarrow> deleteAction d flowVersion nm
        | ADD_ACTION request \<Rightarrow> addActionOperation d E flowVersion request
        | UPDATE_ACTION request \<Rightarrow>
            rbind (updateAction d E flowVersion request) (\<lambda>fv.
            transferFlow d fv (\<lambda>st. upgradePiece E st (actionName request)))
        | UPDATE_TRIGGER request \<Rightarrow>
            transferFlow d
              (flowVersion\<lparr>trigger :=
                 createTrigger E (name (props (trigger flowVersion))) request
                   (nextAction (trigger flowVersion))\<rparr>)
              (\<lambda>st. upgradePiece E st (triggerName request))
        | DUPLICATE_ACTION stepName \<Rightarrow> duplicateStep d E stepName flowVersion
        | DELETE_BRANCH stepName i \<Rightarrow>
            transferFlow d flowVersion (\<lambda>st. Ok (deleteBranchStep stepName i st))
        | ADD_BRANCH stepName i \<Rightarrow>
            transferFlow d flowVersion (\<lambda>st. Ok (addBranchStep stepName i st))
        | DUPLICATE_BRANCH stepName i \<Rightarrow> duplicateRouterChild d E stepName i flowVersion)
       (\<lambda>clonedVersion. Ok (clonedVersion\<lparr>flowValid := isValid clonedVersion\<rparr>))"

section \<open>Views of a step for the proofs\<close>

text \<open>
  The slots of a step and its \<^verbatim>\<open>nextAction\<close> as one list, in the order
  \<^verbatim>\<open>transferStep\<close> and \<^verbatim>\<open>traverseInternal\<close> visit them, and
  the depth of a step: the fuel a \<^verbatim>\<open>transferStep\<close> that keeps the tree
  needs.
\<close>

fun subs :: "step \<Rightarrow> step option list" where
  "subs (Leaf p k n) = [n]"
| "subs (Branch p s f n) = [s, f, n]"
| "subs (Loop p b n) = [b, n]"
| "subs (Router p cs n) = cs @ [n]"

fun withSubs :: "step option list \<Rightarrow> step \<Rightarrow> step" where
  "withSubs ss (Leaf p k n) = Leaf p k (last ss)"
| "withSubs ss (Branch p s f n) = Branch p (ss ! 0) (ss ! 1) (ss ! 2)"
| "withSubs ss (Loop p b n) = Loop p (ss ! 0) (ss ! 1)"
| "withSubs ss (Router p cs n) = Router p (butlast ss) (last ss)"

definition optSteps :: "step option \<Rightarrow> step list" where
  "optSteps c = (case c of None \<Rightarrow> [] | Some a \<Rightarrow> traverseInternal a)"

fun depth :: "step \<Rightarrow> nat" where
  "depth (Leaf p k n) = Suc (case n of None \<Rightarrow> 0 | Some a \<Rightarrow> depth a)"
| "depth (Branch p s f n) =
     Suc (max (case s of None \<Rightarrow> 0 | Some a \<Rightarrow> depth a)
         (max (case f of None \<Rightarrow> 0 | Some a \<Rightarrow> depth a)
              (case n of None \<Rightarrow> 0 | Some a \<Rightarrow> depth a)))"
| "depth (Loop p b n) =
     Suc (max (case b of None \<Rightarrow> 0 | Some a \<Rightarrow> depth a)
              (case n of None \<Rightarrow> 0 | Some a \<Rightarrow> depth a))"
| "depth (Router p cs n) =
     Suc (max (foldr max (map (\<lambda>c. case c of None \<Rightarrow> 0 | Some a \<Rightarrow> depth a) cs) 0)
              (case n of None \<Rightarrow> 0 | Some a \<Rightarrow> depth a))"

definition nextRouterNamed :: "string \<Rightarrow> step \<Rightarrow> bool" where
  "nextRouterNamed N s = (case nextAction s of Some (Router p cs n) \<Rightarrow> name p = N | _ \<Rightarrow> False)"


definition throwsFlowOperationInvalid :: "'a result \<Rightarrow> bool" where
  "throwsFlowOperationInvalid r =
     (case r of Throw (FLOW_OPERATION_INVALID m) \<Rightarrow> True | _ \<Rightarrow> False)"


text \<open>
  \<^verbatim>\<open>normalize\<close> and \<^verbatim>\<open>upgradePiece\<close> read and write the
  properties of a step only; these are their functions on the properties.
\<close>

definition upgradeProps :: "env \<Rightarrow> props \<Rightarrow> props result" where
  "upgradeProps E p =
     rbind (isLegacyApp E (pieceName (settings p)) (pieceVersion (settings p)))
       (\<lambda>legacy.
          if legacy then Ok p
          else if startsWith (CHR ''^'') (pieceVersion (settings p))
                \<or> startsWith (CHR ''~'') (pieceVersion (settings p)) then Ok p
          else if semverValid E (pieceVersion (settings p)) then
            (case semverLt E (pieceVersion (settings p)) ''1.0.0'' of
               None \<Rightarrow> Throw TypeError
             | Some True \<Rightarrow> Ok (setPieceVersion (CHR ''~'' # pieceVersion (settings p)) p)
             | Some False \<Rightarrow> Ok (setPieceVersion (CHR ''^'' # pieceVersion (settings p)) p))
          else Ok (setPieceVersion (CHR ''^'' # pieceVersion (settings p)) p))"

definition wipeProps :: "bool \<Rightarrow> props \<Rightarrow> props" where
  "wipeProps piece p =
     (let s1 = (settings p)\<lparr>inputUiInfo := Some DEFAULT_SAMPLE_DATA_SETTINGS\<rparr>;
          s2 = (case getAuth s1 of
                  Some a \<Rightarrow> if truthy a \<and> piece then setAuth (JStr []) s1 else s1
                | None \<Rightarrow> s1)
      in p\<lparr>settings := s2\<rparr>)"

definition normalizeProps :: "env \<Rightarrow> StepType \<Rightarrow> props \<Rightarrow> props result" where
  "normalizeProps E t p =
     (if t = Action PIECE \<or> t = Trigger PIECE_TRIGGER
      then upgradeProps E (wipeProps True p) else Ok (wipeProps False p))"


text \<open>
  The names of the steps of a tree, and the locations a parent step does not accept: the
  last \<^verbatim>\<open>else\<close> of each kind in \<^verbatim>\<open>addAction\<close>.
\<close>

definition stepNames :: "step \<Rightarrow> string list" where
  "stepNames t = map (\<lambda>s. name (props s)) (traverseInternal t)"

definition optNames :: "step option \<Rightarrow> string list" where
  "optNames c = map (\<lambda>s. name (props s)) (optSteps c)"

definition rejectsLocation :: "step \<Rightarrow> StepLocationRelativeToParent \<Rightarrow> int option \<Rightarrow> bool" where
  "rejectsLocation parent l i =
     (case parent of
        Loop p b n \<Rightarrow> l \<noteq> INSIDE_LOOP \<and> l \<noteq> AFTER
      | Branch p s f n \<Rightarrow> l \<noteq> INSIDE_TRUE_BRANCH \<and> l \<noteq> INSIDE_FALSE_BRANCH \<and> l \<noteq> AFTER
      | Router p cs n \<Rightarrow> (l \<noteq> INSIDE_BRANCH \<or> i = None) \<and> l \<noteq> AFTER
      | Leaf p k n \<Rightarrow> False)"


definition everyStep :: "(step \<Rightarrow> bool) \<Rightarrow> step \<Rightarrow> bool" where
  "everyStep I t = list_all I (traverseInternal t)"






text \<open>
  The slot of a parent step that \<^verbatim>\<open>addAction\<close> writes, as an index into
  \<open>subs\<close>, for a location and a branch index: the cases of \<open>addToParent\<close>,
  with \<open>None\<close> where it throws. For a router the index is one of the children it
  has (a write past the end would lengthen them, a write at a negative index is lost); the
  last case is the \<^verbatim>\<open>nextAction\<close>.
\<close>

fun targetSlot ::
  "step \<Rightarrow> StepLocationRelativeToParent option \<Rightarrow> int option \<Rightarrow> nat option" where
  "targetSlot (Loop p b n) (Some l) i =
     (if l = INSIDE_LOOP then Some 0 else if l = AFTER then Some 1 else None)"
| "targetSlot (Branch p s f n) (Some l) i =
     (if l = INSIDE_TRUE_BRANCH then Some 0
      else if l = INSIDE_FALSE_BRANCH then Some 1
      else if l = AFTER then Some 2 else None)"
| "targetSlot (Router p cs n) (Some l) i =
     (if l = INSIDE_BRANCH \<and> i \<noteq> None then
        (if 0 \<le> the i \<and> the i < 4294967295 \<and> nat (the i) < length cs
         then Some (nat (the i)) else None)
      else if l = AFTER then Some (length cs) else None)"
| "targetSlot st l i = Some (length (subs st) - 1)"

text \<open>
  Two views of a tree for the proofs about \<^verbatim>\<open>moveAction\<close>.
  \<open>graft nm X t\<close> is \<open>t\<close> with \<open>X\<close> in the place of the step named
  \<open>nm\<close>. \<open>hollow nm t\<close> is \<open>t\<close> without what is in the slots of the
  loop or branch named \<open>nm\<close> (its \<^verbatim>\<open>nextAction\<close> is kept): what
  the replay of the import operations of a moved loop or branch leaves as it is.
  \<open>structural\<close> are the locations inside a loop and inside a branch.
\<close>

fun graft :: "string \<Rightarrow> step \<Rightarrow> step \<Rightarrow> step" where
  "graft nm X (Leaf p k n) =
     (if name p = nm then X else Leaf p k (map_option (graft nm X) n))"
| "graft nm X (Branch p s f n) =
     (if name p = nm then X
      else Branch p (map_option (graft nm X) s) (map_option (graft nm X) f)
             (map_option (graft nm X) n))"
| "graft nm X (Loop p b n) =
     (if name p = nm then X
      else Loop p (map_option (graft nm X) b) (map_option (graft nm X) n))"
| "graft nm X (Router p cs n) =
     (if name p = nm then X
      else Router p (map (map_option (graft nm X)) cs) (map_option (graft nm X) n))"

fun hollow :: "string \<Rightarrow> step \<Rightarrow> step" where
  "hollow nm (Leaf p k n) = Leaf p k (map_option (hollow nm) n)"
| "hollow nm (Branch p s f n) =
     (if name p = nm then Branch p None None (map_option (hollow nm) n)
      else Branch p (map_option (hollow nm) s) (map_option (hollow nm) f)
             (map_option (hollow nm) n))"
| "hollow nm (Loop p b n) =
     (if name p = nm then Loop p None (map_option (hollow nm) n)
      else Loop p (map_option (hollow nm) b) (map_option (hollow nm) n))"
| "hollow nm (Router p cs n) =
     Router p (map (map_option (hollow nm)) cs) (map_option (hollow nm) n)"

definition emptied :: "string \<Rightarrow> step \<Rightarrow> bool" where
  "emptied nm t =
     (name (props t) = nm
      \<and> (stepType t = Action LOOP_ON_ITEMS \<or> stepType t = Action BRANCH))"

definition structural :: "StepType \<Rightarrow> StepLocationRelativeToParent option \<Rightarrow> bool" where
  "structural T l =
     (T = Action LOOP_ON_ITEMS \<and> l = Some INSIDE_LOOP
      \<or> T = Action BRANCH \<and> (l = Some INSIDE_TRUE_BRANCH \<or> l = Some INSIDE_FALSE_BRANCH))"

section \<open>Example flows\<close>

text \<open>
  The flows and collaborators of the examples: validators that accept every step, and a
  comparator of versions written \<^verbatim>\<open>X.Y.Z\<close> that fails on every other
  string, as \<^verbatim>\<open>semver.lt\<close> throws on what is no version.
\<close>

definition exSettings :: settings where
  "exSettings = \<lparr>pieceName = [], pieceVersion = [], input = None, inputUiInfo = None, branches = []\<rparr>"

definition exProps :: "string \<Rightarrow> props" where
  "exProps n = \<lparr>name = n, displayName = n, valid = True, settings = exSettings\<rparr>"

definition exBranch :: "string \<Rightarrow> RouterBranch" where
  "exBranch n = \<lparr>conditions = [[emptyCondition]], branchType = CONDITION, branchName = n\<rparr>"

definition exRouterProps :: "string \<Rightarrow> string list \<Rightarrow> props" where
  "exRouterProps n bs = \<lparr>name = n, displayName = n, valid = True, settings = exSettings\<lparr>branches := map exBranch bs\<rparr>\<rparr>"

definition digitValue :: "char \<Rightarrow> nat option" where
  "digitValue c = map_of (zip ''0123456789'' [0, 1, 2, 3, 4, 5, 6, 7, 8, 9]) c"

fun readDigits :: "string \<Rightarrow> nat \<Rightarrow> nat option" where
  "readDigits [] acc = Some acc"
| "readDigits (c # cs) acc =
     (case digitValue c of None \<Rightarrow> None | Some v \<Rightarrow> readDigits cs (10 * acc + v))"

fun splitDots :: "string \<Rightarrow> string list" where
  "splitDots [] = [[]]"
| "splitDots (c # cs) =
     (if c = CHR ''.'' then [] # splitDots cs
      else case splitDots cs of [] \<Rightarrow> [[c]] | w # ws \<Rightarrow> (c # w) # ws)"

definition parseVersion :: "string \<Rightarrow> (nat \<times> nat \<times> nat) option" where
  "parseVersion v =
     (case map (\<lambda>w. if w = [] then None else readDigits w 0) (splitDots v) of
        [Some a, Some b, Some c] \<Rightarrow> Some (a, b, c)
      | _ \<Rightarrow> None)"

definition exSemverLt :: "string \<Rightarrow> string \<Rightarrow> bool option" where
  "exSemverLt a b =
     (case parseVersion a of
        None \<Rightarrow> None
      | Some (x1, x2, x3) \<Rightarrow>
          (case parseVersion b of
             None \<Rightarrow> None
           | Some (y1, y2, y3) \<Rightarrow>
               Some (x1 < y1 \<or> (x1 = y1 \<and> (x2 < y2 \<or> (x2 = y2 \<and> x3 < y3))))))"

definition exEnv :: env where
  "exEnv = \<lparr>actionSchemaValidator = (\<lambda>s. True), triggerSchemaValidation = (\<lambda>s. True),
     semverValid = (\<lambda>v. parseVersion v \<noteq> None), semverLt = exSemverLt\<rparr>"

definition exFlow :: "step \<Rightarrow> FlowVersion" where
  "exFlow t = \<lparr>flowDisplayName = ''flow'', state = DRAFT, trigger = t, flowValid = True\<rparr>"

definition routerFlow :: FlowVersion where
  "routerFlow = exFlow (Leaf (exProps ''trigger'') LEAF_EMPTY
      (Some (Router (exRouterProps ''step_1'' [''Branch 1'', ''Otherwise'']) [None, None] None)))"

definition loopHeadFlow :: FlowVersion where
  "loopHeadFlow = exFlow (Leaf (exProps ''trigger'') LEAF_EMPTY
      (Some (Loop (exProps ''step_1'')
         (Some (Router (exRouterProps ''step_2'' [''Branch 1'', ''Otherwise'']) [None, None] None)) None)))"



definition pieceProps :: "string \<Rightarrow> string \<Rightarrow> string \<Rightarrow> json option \<Rightarrow> props" where
  "pieceProps n pn pv i =
     \<lparr>name = n, displayName = n, valid = True,
      settings = \<lparr>pieceName = pn, pieceVersion = pv, input = i,
                  inputUiInfo = Some DEFAULT_SAMPLE_DATA_SETTINGS, branches = []\<rparr>\<rparr>"

text \<open>
  A gmail trigger of a legacy version with a connection, and three piece actions: one
  below 1.0.0 with a connection, one above with no \<^verbatim>\<open>auth\<close>, one whose
  version is pinned already.
\<close>

definition mailFlow :: FlowVersion where
  "mailFlow = exFlow
     (Leaf (pieceProps ''trigger'' ''@activepieces/piece-gmail'' ''0.2.0''
              (Some (JObj [(''auth'', JStr ''{{connections.gmail}}'')])))
        LEAF_PIECE_TRIGGER
     (Some (Leaf (pieceProps ''step_1'' ''@activepieces/piece-slack'' ''0.4.2''
                    (Some (JObj [(''auth'', JStr ''{{connections.slack}}''),
                                 (''text'', JStr ''hello'')])))
              LEAF_PIECE
     (Some (Leaf (pieceProps ''step_2'' ''@activepieces/piece-http'' ''1.2.0''
                    (Some (JObj [(''url'', JStr ''https://example.com'')])))
              LEAF_PIECE
     (Some (Leaf (pieceProps ''step_3'' ''@activepieces/piece-store'' ''^2.0.0'' None)
              LEAF_PIECE None)))))))"

definition normalizedMailFlow :: FlowVersion where
  "normalizedMailFlow = exFlow
     (Leaf (pieceProps ''trigger'' ''@activepieces/piece-gmail'' ''0.2.0''
              (Some (JObj [(''auth'', JStr [])])))
        LEAF_PIECE_TRIGGER
     (Some (Leaf (pieceProps ''step_1'' ''@activepieces/piece-slack'' ''~0.4.2''
                    (Some (JObj [(''auth'', JStr []), (''text'', JStr ''hello'')])))
              LEAF_PIECE
     (Some (Leaf (pieceProps ''step_2'' ''@activepieces/piece-http'' ''^1.2.0''
                    (Some (JObj [(''url'', JStr ''https://example.com'')])))
              LEAF_PIECE
     (Some (Leaf (pieceProps ''step_3'' ''@activepieces/piece-store'' ''^2.0.0'' None)
              LEAF_PIECE None)))))))"

definition codeRequest :: "string \<Rightarrow> UpdateActionRequest" where
  "codeRequest n =
     \<lparr>actionName = n, actionDisplayName = n, actionType = Action CODE,
      actionSettings = exSettings, actionValid = None\<rparr>"

definition addRequest ::
  "string \<Rightarrow> StepLocationRelativeToParent option \<Rightarrow> UpdateActionRequest \<Rightarrow> AddActionRequest" where
  "addRequest parent l a =
     \<lparr>parentStep = parent, stepLocationRelativeToParent = l, branchIndex = None,
      requestBranchName = None, action = a\<rparr>"

text \<open>A trigger and a piece action after it.\<close>

definition pieceFlow :: FlowVersion where
  "pieceFlow = exFlow (Leaf (exProps ''trigger'') LEAF_EMPTY
      (Some (Leaf (exProps ''step_1'') LEAF_PIECE None)))"

definition routerFlowAdded :: FlowVersion where
  "routerFlowAdded = exFlow (Leaf (exProps ''trigger'') LEAF_EMPTY
      (Some (Router (exRouterProps ''step_1'' [''Branch 1'', ''Branch 2'', ''Otherwise''])
               [None, None, None] None)))"



text \<open>
  A loop whose body is a router with three branches, none of them with a step: a router
  after one \<^verbatim>\<open>ADD_BRANCH\<close>.
\<close>

definition loopOverRouter :: step where
  "loopOverRouter =
     Loop (exProps ''step_1'')
       (Some (Router (exRouterProps ''step_2'' [''Branch 1'', ''Branch 2'', ''Otherwise''])
                [None, None, None] None))
       None"

text \<open>
  A branch with a loop and a step after it in the success slot and two steps in the failure
  slot; the request to move the loop after the first step of the failure slot, and the
  flow that move returns. And a trigger with two steps after it.
\<close>

definition moveLoop :: step where
  "moveLoop =
     Loop (exProps ''step_2'') (Some (Leaf (exProps ''step_3'') LEAF_CODE None))
       (Some (Leaf (exProps ''step_4'') LEAF_CODE None))"

definition moveTarget :: step where
  "moveTarget =
     Leaf (exProps ''step_5'') LEAF_CODE (Some (Leaf (exProps ''step_6'') LEAF_CODE None))"

definition moveBranch :: step where
  "moveBranch = Branch (exProps ''step_1'') (Some moveLoop) (Some moveTarget) None"

definition moveFlow :: FlowVersion where
  "moveFlow = exFlow (Leaf (exProps ''trigger'') LEAF_EMPTY (Some moveBranch))"

definition moveRequest :: MoveActionRequest where
  "moveRequest =
     \<lparr>moveName = ''step_2'', newParentStep = ''step_5'',
      stepLocationRelativeToNewParent = Some AFTER, moveBranchIndex = None,
      moveBranchName = None\<rparr>"

definition movedFlow :: FlowVersion where
  "movedFlow = exFlow (Leaf (exProps ''trigger'') LEAF_EMPTY
     (Some (Branch (exProps ''step_1'')
        (Some (Leaf (exProps ''step_4'') LEAF_CODE None))
        (Some (Leaf (exProps ''step_5'') LEAF_CODE
           (Some (Loop (exProps ''step_2'') (Some (Leaf (exProps ''step_3'') LEAF_CODE None))
              (Some (Leaf (exProps ''step_6'') LEAF_CODE None))))))
        None)))"

definition chainFlow :: FlowVersion where
  "chainFlow = exFlow (Leaf (exProps ''trigger'') LEAF_EMPTY
     (Some (Leaf (exProps ''step_1'') LEAF_CODE (Some (Leaf (exProps ''step_2'') LEAF_CODE None)))))"

section \<open>Lemmas\<close>

lemma rbind_Ok [simp]: "rbind (Ok x) k = k x"
  by (simp add: rbind_def)

lemma rbind_Throw [simp]: "rbind (Throw e) k = Throw e"
  by (simp add: rbind_def)

lemma rbind_OutOfFuel [simp]: "rbind OutOfFuel k = OutOfFuel"
  by (simp add: rbind_def)

lemma rbind_eq_Ok: "rbind m k = Ok r \<longleftrightarrow> (\<exists>x. m = Ok x \<and> k x = Ok r)"
  by (cases m) simp_all

lemma rbind_assoc: "rbind (rbind m k) h = rbind m (\<lambda>x. rbind (k x) h)"
  by (cases m) simp_all

lemma nextAction_setNextAction [simp]: "nextAction (setNextAction x s) = x"
  by (cases s) simp_all

lemma props_setNextAction [simp]: "props (setNextAction x s) = props s"
  by (cases s) simp_all

lemma setNextAction_same [simp]: "setNextAction (nextAction s) s = s"
  by (cases s) simp_all

lemma props_setProps [simp]: "props (setProps q s) = q"
  by (cases s) simp_all

lemma nextAction_setProps [simp]: "nextAction (setProps q s) = nextAction s"
  by (cases s) simp_all

lemma setProps_same [simp]: "setProps (props s) s = s"
  by (cases s) simp_all

lemma mapResult_append:
  "mapResult g (xs @ ys) =
     rbind (mapResult g xs) (\<lambda>xs'. rbind (mapResult g ys) (\<lambda>ys'. Ok (xs' @ ys')))"
proof (induction xs)
  case Nil
  show ?case by (cases "mapResult g ys") simp_all
next
  case (Cons x xs)
  show ?case
  proof (cases "g x")
    case (Ok y)
    then show ?thesis using Cons
      by (cases "mapResult g xs"; cases "mapResult g ys") simp_all
  qed simp_all
qed

lemma mapResult_eq_Ok: "mapResult g xs = Ok ys \<longleftrightarrow> list_all2 (\<lambda>x y. g x = Ok y) xs ys"
proof (induction xs arbitrary: ys)
  case Nil
  show ?case by auto
next
  case (Cons x xs)
  show ?case by (cases ys) (auto simp: rbind_eq_Ok Cons)
qed

lemma transferOpt_eq_Ok:
  "transferOpt rec so = Ok so' \<longleftrightarrow> rel_option (\<lambda>a a'. rec a = Ok a') so so'"
  by (cases so; cases so') (auto simp: transferOpt_def rbind_eq_Ok)

lemma transferStep_subs:
  "transferStep (Suc d) f st =
     rbind (f st) (\<lambda>u.
     rbind (mapResult (transferOpt (\<lambda>c. transferStep d f c)) (subs u)) (\<lambda>ss.
     Ok (withSubs ss u)))"
proof (cases "f st")
  case (Ok u)
  show ?thesis
  proof (cases u)
    case (Leaf p k n)
    then show ?thesis using Ok
      by (cases "transferOpt (\<lambda>c. transferStep d f c) n") simp_all
  next
    case (Branch p s f' n)
    then show ?thesis using Ok
      by (cases "transferOpt (\<lambda>c. transferStep d f c) s";
          cases "transferOpt (\<lambda>c. transferStep d f c) f'";
          cases "transferOpt (\<lambda>c. transferStep d f c) n") simp_all
  next
    case (Loop p b n)
    then show ?thesis using Ok
      by (cases "transferOpt (\<lambda>c. transferStep d f c) b";
          cases "transferOpt (\<lambda>c. transferStep d f c) n") simp_all
  next
    case (Router p cs n)
    then show ?thesis using Ok
      by (cases "mapResult (transferOpt (\<lambda>c. transferStep d f c)) cs";
          cases "transferOpt (\<lambda>c. transferStep d f c) n")
         (simp_all add: mapResult_append)
  qed
qed simp_all

lemma transferStep_eq_Ok:
  "transferStep (Suc d) f st = Ok r \<longleftrightarrow>
     (\<exists>u ss. f st = Ok u
        \<and> list_all2 (rel_option (\<lambda>a a'. transferStep d f a = Ok a')) (subs u) ss
        \<and> r = withSubs ss u)"
  unfolding transferStep_subs by (auto simp: rbind_eq_Ok mapResult_eq_Ok transferOpt_eq_Ok)

lemma traverseInternal_subs:
  "traverseInternal st = st # concat (map optSteps (subs st))"
proof -
  have "optSteps = case_option [] traverseInternal"
    by (rule ext) (simp add: optSteps_def)
  then show ?thesis by (cases st) simp_all
qed

lemma subs_withSubs [simp]: "length ss = length (subs u) \<Longrightarrow> subs (withSubs ss u) = ss"
proof (cases u)
  case (Leaf p k n)
  assume "length ss = length (subs u)"
  then show ?thesis using Leaf by (cases ss) auto
next
  case (Branch p s f n)
  assume "length ss = length (subs u)"
  then show ?thesis using Branch
    by (cases ss; cases "tl ss"; cases "tl (tl ss)") auto
next
  case (Loop p b n)
  assume "length ss = length (subs u)"
  then show ?thesis using Loop by (cases ss; cases "tl ss") auto
next
  case (Router p cs n)
  assume "length ss = length (subs u)"
  then have "ss \<noteq> []" using Router by auto
  then show ?thesis using Router by simp
qed

lemma props_withSubs [simp]: "props (withSubs ss u) = props u"
  by (cases u) simp_all

lemma withSubs_subs [simp]: "withSubs (subs u) u = u"
  by (cases u) simp_all

lemma foldr_max_acc: "foldr max xs (y::nat) = max (foldr max xs 0) y"
  by (induction xs) auto

lemma depth_subs:
  "depth st = Suc (foldr max (map (\<lambda>c. case c of None \<Rightarrow> 0 | Some a \<Rightarrow> depth a) (subs st)) 0)"
proof (cases st)
  case (Router p cs n)
  show ?thesis unfolding Router
    by (simp add: foldr_max_acc [of _ "case n of None \<Rightarrow> 0 | Some a \<Rightarrow> depth a"])
qed simp_all

lemma foldr_max_ge: "x \<in> set xs \<Longrightarrow> x \<le> foldr max xs (0::nat)"
  by (induction xs) auto

lemma depth_sub: "Some a \<in> set (subs st) \<Longrightarrow> depth a < depth st"
proof -
  assume "Some a \<in> set (subs st)"
  then have "depth a \<in> set (map (\<lambda>c. case c of None \<Rightarrow> 0 | Some a \<Rightarrow> depth a) (subs st))"
    by force
  then have "depth a \<le> foldr max (map (\<lambda>c. case c of None \<Rightarrow> 0 | Some a \<Rightarrow> depth a) (subs st)) 0"
    by (rule foldr_max_ge)
  then show ?thesis by (subst depth_subs) simp
qed

lemma traverse_sub:
  "Some a \<in> set (subs st) \<Longrightarrow> set (traverseInternal a) \<subseteq> set (traverseInternal st)"
  by (subst (2) traverseInternal_subs) (force simp: optSteps_def)

lemma transferStep_id:
  "(\<And>s. s \<in> set (traverseInternal st) \<Longrightarrow> f s = Ok s) \<Longrightarrow> depth st \<le> d
     \<Longrightarrow> transferStep d f st = Ok st"
proof (induction d arbitrary: st)
  case 0
  then show ?case by (cases st) simp_all
next
  case (Suc d)
  have self: "f st = Ok st" using Suc.prems(1) by (cases st) simp_all
  have "list_all2 (rel_option (\<lambda>a a'. transferStep d f a = Ok a')) (subs st) (subs st)"
  proof (rule list_all2_all_nthI)
    fix i assume i: "i < length (subs st)"
    show "rel_option (\<lambda>a a'. transferStep d f a = Ok a') (subs st ! i) (subs st ! i)"
    proof (cases "subs st ! i")
      case (Some a)
      then have mem: "Some a \<in> set (subs st)" using i by (metis nth_mem)
      have "transferStep d f a = Ok a"
        using Suc.prems traverse_sub[OF mem] depth_sub[OF mem] by (intro Suc.IH) auto
      then show ?thesis using Some by simp
    qed simp
  qed simp
  then show ?case unfolding transferStep_eq_Ok using self
    by (intro exI[of _ st] exI[of _ "subs st"]) simp
qed

lemma addBranchStep_id: "\<not> nextRouterNamed N s \<Longrightarrow> addBranchStep N i s = s"
  by (auto simp: nextRouterNamed_def addBranchStep_def split: option.splits step.splits)

lemma deleteBranchStep_id: "\<not> nextRouterNamed N s \<Longrightarrow> deleteBranchStep N i s = s"
  by (auto simp: nextRouterNamed_def deleteBranchStep_def split: option.splits step.splits)

lemma transferFlow_id:
  "(\<And>s. s \<in> set (getAllSteps (trigger f)) \<Longrightarrow> g s = Ok s) \<Longrightarrow> depth (trigger f) \<le> d
     \<Longrightarrow> transferFlow d f g = Ok f"
  by (simp add: transferFlow_def getAllSteps_def transferStep_id)


lemma stepType_setProps [simp]: "stepType (setProps q s) = stepType s"
  by (cases s rule: stepType.cases) simp_all

lemma stepType_withSubs [simp]: "stepType (withSubs ss s) = stepType s"
  by (cases s rule: stepType.cases) simp_all

lemma subs_setProps [simp]: "subs (setProps q s) = subs s"
  by (cases s) simp_all

lemma setProps_setProps [simp]: "setProps q (setProps q' s) = setProps q s"
  by (cases s) simp_all

lemma isPieceStep_leaf:
  "isPieceStep st \<longleftrightarrow> (\<exists>p k n. st = Leaf p k n \<and> (k = LEAF_PIECE \<or> k = LEAF_PIECE_TRIGGER))"
  by (cases st rule: stepType.cases) (simp_all add: isPieceStep_def)

lemma upgradePiece_props:
  "upgradePiece E st (name (props st)) =
     (if isPieceStep st then rbind (upgradeProps E (props st)) (\<lambda>q. Ok (setProps q st))
      else Ok st)"
proof (cases st)
  case (Leaf p k n)
  show ?thesis
  proof (cases "isLegacyApp E (pieceName (settings p)) (pieceVersion (settings p))")
    case (Ok b)
    then show ?thesis unfolding Leaf
      by (cases k)
        (simp_all add: upgradePiece_def upgradeProps_def isPieceStep_def
          split: option.splits bool.splits)
  qed (cases k; simp add: Leaf upgradePiece_def upgradeProps_def isPieceStep_def)+
qed (simp_all add: upgradePiece_def isPieceStep_def)

lemma normalizeStep_props:
  "normalizeStep E st = rbind (normalizeProps E (stepType st) (props st)) (\<lambda>q. Ok (setProps q st))"
proof -
  have piece: "isPieceStep (setProps q st) = isPieceStep st" for q
    by (simp add: isPieceStep_def)
  show ?thesis
  proof (cases "isPieceStep st")
    case True
    then show ?thesis
      by (auto simp: normalizeStep_def Let_def upgradePiece_props piece normalizeProps_def
          wipeProps_def isPieceStep_def split: option.splits)
  next
    case False
    then show ?thesis
      by (auto simp: normalizeStep_def Let_def upgradePiece_props piece normalizeProps_def
          wipeProps_def isPieceStep_def split: option.splits)
  qed
qed


lemma foldr_max_le: "(\<And>x. x \<in> set xs \<Longrightarrow> x \<le> b) \<Longrightarrow> foldr max xs (0::nat) \<le> b"
  by (induction xs) auto

lemma depth_pos: "0 < depth st"
  by (cases st) simp_all

lemma list_all2_ex: "(\<And>x. x \<in> set xs \<Longrightarrow> \<exists>y. R x y) \<Longrightarrow> \<exists>ys. list_all2 R xs ys"
proof (induction xs)
  case Nil
  then show ?case by simp
next
  case (Cons x xs)
  then obtain y ys where "R x y" "list_all2 R xs ys" by (meson list.set_intros)
  then have "list_all2 R (x # xs) (y # ys)" by simp
  then show ?case by blast
qed

lemma traverseInternal_withSubs:
  "length ss = length (subs u)
     \<Longrightarrow> traverseInternal (withSubs ss u) = withSubs ss u # concat (map optSteps ss)"
  by (subst traverseInternal_subs) simp

lemma in_optSteps: "s \<in> set (optSteps c) \<longleftrightarrow> (\<exists>a. c = Some a \<and> s \<in> set (traverseInternal a))"
  by (cases c) (simp_all add: optSteps_def)

lemma traverseInternal_self [simp]: "st \<in> set (traverseInternal st)"
  by (subst traverseInternal_subs) simp

lemma transferStep_depth: "transferStep d f st = Ok r \<Longrightarrow> depth r \<le> d"
proof (induction d arbitrary: st r)
  case 0
  then show ?case by simp
next
  case (Suc d)
  from Suc.prems obtain u ss where u: "f st = Ok u"
    and la: "list_all2 (rel_option (\<lambda>a a'. transferStep d f a = Ok a')) (subs u) ss"
    and r: "r = withSubs ss u"
    unfolding transferStep_eq_Ok by blast
  have len: "length ss = length (subs u)" using la by (simp add: list_all2_lengthD)
  have "x \<le> d" if "x \<in> set (map (\<lambda>c. case c of None \<Rightarrow> 0 | Some a \<Rightarrow> depth a) ss)" for x
  proof -
    from that obtain c where c: "c \<in> set ss" "x = (case c of None \<Rightarrow> 0 | Some a \<Rightarrow> depth a)"
      by auto
    show ?thesis
    proof (cases c)
      case None
      then show ?thesis using c by simp
    next
      case (Some a')
      then obtain i where i: "i < length ss" "ss ! i = Some a'"
        using c(1) by (metis in_set_conv_nth)
      then have "rel_option (\<lambda>a a'. transferStep d f a = Ok a') (subs u ! i) (Some a')"
        using la by (metis list_all2_nthD2)
      then obtain a where "transferStep d f a = Ok a'" by (cases "subs u ! i") auto
      then show ?thesis using Suc.IH c(2) Some by simp
    qed
  qed
  then have "foldr max (map (\<lambda>c. case c of None \<Rightarrow> 0 | Some a \<Rightarrow> depth a) ss) 0 \<le> d"
    by (rule foldr_max_le)
  then show ?case unfolding r by (subst depth_subs) (simp add: len)
qed

lemma transfer_props_only:
  assumes F: "\<And>st. f st = rbind (F (stepType st) (props st)) (\<lambda>q. Ok (setProps q st))"
  shows "transferStep d f st = Ok r \<Longrightarrow> s \<in> set (traverseInternal r)
     \<Longrightarrow> \<exists>s0 \<in> set (traverseInternal st).
           F (stepType s0) (props s0) = Ok (props s) \<and> stepType s = stepType s0"
proof (induction d arbitrary: st r s)
  case 0
  then show ?case by simp
next
  case (Suc d)
  from Suc.prems(1) obtain u ss where u: "f st = Ok u"
    and la: "list_all2 (rel_option (\<lambda>a a'. transferStep d f a = Ok a')) (subs u) ss"
    and r: "r = withSubs ss u"
    unfolding transferStep_eq_Ok by blast
  from u obtain q where q: "F (stepType st) (props st) = Ok q" "u = setProps q st"
    unfolding F by (auto simp: rbind_eq_Ok)
  have len: "length ss = length (subs u)" using la by (simp add: list_all2_lengthD)
  have steps: "traverseInternal r = r # concat (map optSteps ss)"
    unfolding r using len by (rule traverseInternal_withSubs)
  show ?case
  proof (cases "s = r")
    case True
    then have "props s = q" "stepType s = stepType st" using r q by simp_all
    then show ?thesis using q(1) by (intro bexI[of _ st]) simp_all
  next
    case False
    then obtain c where c: "c \<in> set ss" "s \<in> set (optSteps c)"
      using Suc.prems(2) steps by auto
    then obtain a' where a': "c = Some a'" "s \<in> set (traverseInternal a')"
      by (auto simp: in_optSteps)
    obtain i where i: "i < length ss" "ss ! i = Some a'"
      using c(1) a'(1) by (metis in_set_conv_nth)
    then have "rel_option (\<lambda>a a'. transferStep d f a = Ok a') (subs u ! i) (Some a')"
      using la by (metis list_all2_nthD2)
    then obtain a where a: "subs u ! i = Some a" "transferStep d f a = Ok a'"
      by (cases "subs u ! i") auto
    have mem: "Some a \<in> set (subs st)"
      using a(1) i(1) len q(2) by (metis nth_mem subs_setProps)
    from Suc.IH[OF a(2) a'(2)] obtain s0 where
      "s0 \<in> set (traverseInternal a)" "F (stepType s0) (props s0) = Ok (props s)"
      "stepType s = stepType s0" by blast
    then show ?thesis using traverse_sub[OF mem] by blast
  qed
qed

lemma transfer_props_only_returns:
  assumes F: "\<And>st. f st = rbind (F (stepType st) (props st)) (\<lambda>q. Ok (setProps q st))"
  shows "(\<And>s. s \<in> set (traverseInternal st) \<Longrightarrow> \<exists>q. F (stepType s) (props s) = Ok q)
     \<Longrightarrow> depth st \<le> d \<Longrightarrow> \<exists>r. transferStep d f st = Ok r"
proof (induction d arbitrary: st)
  case 0
  then show ?case using depth_pos[of st] by simp
next
  case (Suc d)
  obtain q where q: "F (stepType st) (props st) = Ok q" using Suc.prems(1) by force
  then have u: "f st = Ok (setProps q st)" unfolding F by simp
  have "\<exists>y. rel_option (\<lambda>a a'. transferStep d f a = Ok a') x y" if "x \<in> set (subs st)" for x
  proof (cases x)
    case None
    then show ?thesis by (intro exI[of _ None]) simp
  next
    case (Some a)
    then have mem: "Some a \<in> set (subs st)" using that by simp
    have "\<exists>r. transferStep d f a = Ok r"
      using Suc.prems traverse_sub[OF mem] depth_sub[OF mem] by (intro Suc.IH) auto
    then obtain a' where "transferStep d f a = Ok a'" by blast
    then show ?thesis using Some by (intro exI[of _ "Some a'"]) simp
  qed
  then obtain ss where
    "list_all2 (rel_option (\<lambda>a a'. transferStep d f a = Ok a')) (subs st) ss"
    using list_all2_ex by meson
  then show ?case unfolding transferStep_eq_Ok using u by auto
qed

lemma getAuth_simps [simp]:
  "getAuth (st\<lparr>inputUiInfo := u\<rparr>) = getAuth st"
  "getAuth (st\<lparr>pieceVersion := v\<rparr>) = getAuth st"
  by (simp_all add: getAuth_def)

lemma map_of_setKey: "map_of (setKey k v kvs) k = Some v"
  by (induction kvs) auto

lemma getAuth_setAuth: "getAuth st = Some a \<Longrightarrow> getAuth (setAuth v st) = Some v"
  by (auto simp: getAuth_def setAuth_def map_of_setKey split: option.splits json.splits)

lemma setAuth_fields [simp]:
  "pieceName (setAuth v st) = pieceName st"
  "pieceVersion (setAuth v st) = pieceVersion st"
  "inputUiInfo (setAuth v st) = inputUiInfo st"
  by (simp_all add: setAuth_def split: option.splits json.splits)

lemma setAuth_inputUiInfo: "setAuth v (st\<lparr>inputUiInfo := u\<rparr>) = (setAuth v st)\<lparr>inputUiInfo := u\<rparr>"
  by (simp add: setAuth_def split: option.splits json.splits)

lemma setAuth_pieceVersion: "setAuth v (st\<lparr>pieceVersion := u\<rparr>) = (setAuth v st)\<lparr>pieceVersion := u\<rparr>"
  by (simp add: setAuth_def split: option.splits json.splits)

lemma truthy_empty [simp]: "\<not> truthy (JStr [])"
  by (simp add: truthy_def)

lemma getAuth_wipeProps:
  "getAuth (settings (wipeProps piece p)) =
     (case getAuth (settings p) of
        Some a \<Rightarrow> if truthy a \<and> piece then Some (JStr []) else Some a
      | None \<Rightarrow> None)"
  by (auto simp: wipeProps_def Let_def getAuth_setAuth split: option.splits)

lemma wipeProps_fields [simp]:
  "name (wipeProps piece p) = name p"
  "pieceName (settings (wipeProps piece p)) = pieceName (settings p)"
  "pieceVersion (settings (wipeProps piece p)) = pieceVersion (settings p)"
  by (auto simp: wipeProps_def Let_def split: option.splits)

lemma wipeProps_idem: "wipeProps piece (wipeProps piece p) = wipeProps piece p"
  by (cases "getAuth (settings p)")
     (auto simp: wipeProps_def Let_def getAuth_setAuth setAuth_inputUiInfo)

lemma wipeProps_setPieceVersion:
  "wipeProps piece (setPieceVersion v p) = setPieceVersion v (wipeProps piece p)"
  by (cases "getAuth (settings p)")
     (auto simp: wipeProps_def Let_def setPieceVersion_def setAuth_pieceVersion
        setAuth_inputUiInfo)

lemma isLegacyApp_prefixed:
  "c = CHR ''^'' \<or> c = CHR ''~'' \<Longrightarrow> \<not> startsWith (CHR ''^'') v \<Longrightarrow> \<not> startsWith (CHR ''~'') v
     \<Longrightarrow> isLegacyApp E pn (c # v) = isLegacyApp E pn v"
  by (auto simp: isLegacyApp_def startsWith_def Let_def)

lemma setPieceVersion_fields [simp]:
  "pieceVersion (settings (setPieceVersion v p)) = v"
  "pieceName (settings (setPieceVersion v p)) = pieceName (settings p)"
  "name (setPieceVersion v p) = name p"
  "getAuth (settings (setPieceVersion v p)) = getAuth (settings p)"
  by (simp_all add: setPieceVersion_def)

lemma upgradeProps_Ok:
  "upgradeProps E p = Ok q \<Longrightarrow>
     q = setPieceVersion
           (if isLegacyApp E (pieceName (settings p)) (pieceVersion (settings p)) = Ok True
               \<or> startsWith (CHR ''^'') (pieceVersion (settings p))
               \<or> startsWith (CHR ''~'') (pieceVersion (settings p))
            then pieceVersion (settings p)
            else if semverValid E (pieceVersion (settings p))
                    \<and> semverLt E (pieceVersion (settings p)) ''1.0.0'' = Some True
            then CHR ''~'' # pieceVersion (settings p)
            else CHR ''^'' # pieceVersion (settings p)) p"
  by (auto simp: upgradeProps_def rbind_eq_Ok setPieceVersion_def
      split: if_splits option.splits bool.splits)

lemma upgradeProps_legacy_or_pinned:
  assumes "upgradeProps E p = Ok q"
  shows "isLegacyApp E (pieceName (settings q)) (pieceVersion (settings q)) = Ok True
       \<or> startsWith (CHR ''^'') (pieceVersion (settings q))
       \<or> startsWith (CHR ''~'') (pieceVersion (settings q))"
  using upgradeProps_Ok[OF assms] by (auto simp: startsWith_def)

lemma upgradeProps_idem:
  assumes "upgradeProps E p = Ok q"
  shows "upgradeProps E q = Ok q"
proof -
  let ?v = "pieceVersion (settings p)"
  let ?pn = "pieceName (settings p)"
  obtain b where b: "isLegacyApp E ?pn ?v = Ok b"
    using assms by (auto simp: upgradeProps_def rbind_eq_Ok)
  show ?thesis
  proof (cases "b \<or> startsWith (CHR ''^'') ?v \<or> startsWith (CHR ''~'') ?v")
    case True
    then have "q = p" using assms b by (auto simp: upgradeProps_def split: if_splits)
    then show ?thesis using assms by simp
  next
    case False
    then obtain c where c: "c = CHR ''^'' \<or> c = CHR ''~''" "q = setPieceVersion (c # ?v) p"
      using upgradeProps_Ok[OF assms] b by (auto split: if_splits)
    have "isLegacyApp E ?pn (c # ?v) = Ok False"
      using isLegacyApp_prefixed[of c ?v E ?pn] c(1) False b by auto
    then show ?thesis using c by (auto simp: upgradeProps_def startsWith_def)
  qed
qed

lemma upgradeProps_wipe:
  assumes "upgradeProps E p = Ok q" "wipeProps piece p = p"
  shows "wipeProps piece q = q"
proof -
  obtain v where "q = setPieceVersion v p" using upgradeProps_Ok[OF assms(1)] by blast
  then show ?thesis using assms(2) by (simp add: wipeProps_setPieceVersion)
qed

lemma normalizeProps_idem:
  assumes "normalizeProps E t p = Ok q"
  shows "normalizeProps E t q = Ok q"
proof (cases "t = Action PIECE \<or> t = Trigger PIECE_TRIGGER")
  case True
  then have up: "upgradeProps E (wipeProps True p) = Ok q"
    using assms by (simp add: normalizeProps_def)
  have "wipeProps True q = q" using upgradeProps_wipe[OF up] by (simp add: wipeProps_idem)
  then show ?thesis using True upgradeProps_idem[OF up] by (simp add: normalizeProps_def)
next
  case False
  then show ?thesis using assms by (auto simp: normalizeProps_def wipeProps_idem)
qed

lemma normalized_steps_are_fixed:
  assumes "transferStep d (normalizeStep E) st = Ok r" "s \<in> set (traverseInternal r)"
  shows "normalizeStep E s = Ok s"
proof -
  obtain s0 where "normalizeProps E (stepType s0) (props s0) = Ok (props s)"
    "stepType s = stepType s0"
    using transfer_props_only[of "normalizeStep E" "normalizeProps E", OF normalizeStep_props assms]
    by blast
  then have "normalizeProps E (stepType s) (props s) = Ok (props s)"
    using normalizeProps_idem by simp
  then show ?thesis by (subst normalizeStep_props) simp
qed

lemma normalize_returns:
  assumes "\<And>s. s \<in> set (getAllSteps (trigger f)) \<Longrightarrow> \<exists>u. normalizeStep E s = Ok u"
    and "depth (trigger f) \<le> d"
  shows "\<exists>g. normalize d E f = Ok g"
proof -
  have "\<exists>q. normalizeProps E (stepType s) (props s) = Ok q"
    if "s \<in> set (traverseInternal (trigger f))" for s
    using assms(1)[of s] that by (auto simp: getAllSteps_def normalizeStep_props rbind_eq_Ok)
  then obtain r where "transferStep d (normalizeStep E) (trigger f) = Ok r"
    using transfer_props_only_returns[of "normalizeStep E" "normalizeProps E", OF normalizeStep_props]
      assms(2) by blast
  then show ?thesis by (simp add: normalize_def transferFlow_def)
qed

lemma mapResult_throws:
  "(\<And>x. x \<in> set xs \<Longrightarrow> g x = Ok x \<or> g x = Throw e) \<Longrightarrow> \<exists>x \<in> set xs. g x = Throw e
     \<Longrightarrow> mapResult g xs = Throw e"
proof (induction xs)
  case Nil
  then show ?case by simp
next
  case (Cons x xs)
  show ?case
  proof (cases "g x = Throw e")
    case True
    then show ?thesis by simp
  next
    case False
    then have "g x = Ok x" "\<exists>x \<in> set xs. g x = Throw e" using Cons.prems by auto
    then show ?thesis using Cons by simp
  qed
qed

lemma transferStep_throws:
  "(\<And>s. s \<in> set (traverseInternal st) \<Longrightarrow> f s = Ok s \<or> f s = Throw e)
     \<Longrightarrow> \<exists>s \<in> set (traverseInternal st). f s = Throw e \<Longrightarrow> depth st \<le> d
     \<Longrightarrow> transferStep d f st = Throw e"
proof (induction d arbitrary: st)
  case 0
  then show ?case using depth_pos[of st] by simp
next
  case (Suc d)
  show ?case
  proof (cases "f st = Throw e")
    case True
    then show ?thesis by (subst transferStep_subs) simp
  next
    case False
    then have self: "f st = Ok st" using Suc.prems(1)[of st] by simp
    let ?g = "transferOpt (\<lambda>c. transferStep d f c)"
    have each: "?g c = Ok c \<or> ?g c = Throw e" if "c \<in> set (subs st)" for c
    proof (cases c)
      case None
      then show ?thesis by (simp add: transferOpt_def)
    next
      case (Some a)
      then have mem: "Some a \<in> set (subs st)" using that by simp
      have sub: "set (traverseInternal a) \<subseteq> set (traverseInternal st)" "depth a \<le> d"
        using traverse_sub[OF mem] depth_sub[OF mem] Suc.prems(3) by auto
      show ?thesis
      proof (cases "\<exists>s \<in> set (traverseInternal a). f s = Throw e")
        case True
        then have "transferStep d f a = Throw e"
          using sub Suc.prems(1) by (intro Suc.IH) auto
        then show ?thesis using Some by (simp add: transferOpt_def)
      next
        case False
        then have "transferStep d f a = Ok a"
          using sub Suc.prems(1) by (intro transferStep_id) auto
        then show ?thesis using Some by (simp add: transferOpt_def)
      qed
    qed
    obtain s where s: "s \<in> set (traverseInternal st)" "f s = Throw e"
      using Suc.prems(2) by blast
    then have "s \<noteq> st" using self by auto
    then obtain c where c: "c \<in> set (subs st)" "s \<in> set (optSteps c)"
      using s(1) by (subst (asm) traverseInternal_subs) auto
    then obtain a where a: "c = Some a" "s \<in> set (traverseInternal a)"
      by (auto simp: in_optSteps)
    have mem: "Some a \<in> set (subs st)" using c(1) a(1) by simp
    have "transferStep d f a = Throw e"
      using traverse_sub[OF mem] depth_sub[OF mem] Suc.prems(1,3) a(2) s(2)
      by (intro Suc.IH) auto
    then have "?g c = Throw e" using a(1) by (simp add: transferOpt_def)
    then have "mapResult ?g (subs st) = Throw e"
      using each c(1) by (intro mapResult_throws) auto
    then show ?thesis using self by (subst transferStep_subs) simp
  qed
qed

lemma distinct_names_unique:
  "distinct (map (\<lambda>s. name (props s)) xs) \<Longrightarrow> x \<in> set xs \<Longrightarrow> y \<in> set xs
     \<Longrightarrow> name (props x) = name (props y) \<Longrightarrow> x = y"
  by (meson distinct_map inj_onD)

lemma addActionStep_rejects:
  assumes "name (props P) = parentStep request"
    and "stepLocationRelativeToParent request = Some l"
    and "rejectsLocation P l (branchIndex request)"
  shows "\<exists>m. addActionStep E request cs P = Throw (FLOW_OPERATION_INVALID m)"
  using assms by (cases P) (auto simp: addActionStep_def rejectsLocation_def)

lemma addActionStep_other:
  "name (props s) \<noteq> parentStep request \<Longrightarrow> addActionStep E request cs s = Ok s"
  by (simp add: addActionStep_def)

lemma createAction_not_invalid:
  "\<not> throwsFlowOperationInvalid (createAction E r sl)"
  by (simp add: createAction_def throwsFlowOperationInvalid_def Let_def
      split: StepType.splits ActionType.splits)

lemma addActionStep_leaf:
  "\<not> throwsFlowOperationInvalid (addActionStep E request cs (Leaf p k n))"
proof (cases "createAction E (action request) (headSlots n cs)")
  case (Throw e)
  then show ?thesis using createAction_not_invalid[of E "action request" "headSlots n cs"]
    by (auto simp: addActionStep_def throwsFlowOperationInvalid_def)
qed (simp_all add: addActionStep_def throwsFlowOperationInvalid_def)

lemma stepNames_subs: "stepNames t = name (props t) # concat (map optNames (subs t))"
proof -
  have "map (\<lambda>s. name (props s)) (concat (map optSteps cs)) = concat (map optNames cs)" for cs
    by (induction cs) (simp_all add: optNames_def)
  then show ?thesis unfolding stepNames_def by (subst traverseInternal_subs) simp
qed

lemma optNames_Some [simp]: "optNames (Some a) = stepNames a"
  by (simp add: optNames_def optSteps_def stepNames_def)

lemma optNames_None [simp]: "optNames None = []"
  by (simp add: optNames_def optSteps_def)

lemma distinct_concat_parts:
  "distinct (concat (map g xs)) \<Longrightarrow> x \<in> set xs \<Longrightarrow> distinct (g x)"
  by (induction xs) auto

lemma distinct_concat_disjoint:
  "distinct (concat (map g xs)) \<Longrightarrow> x \<in> set xs \<Longrightarrow> y \<in> set xs \<Longrightarrow> x \<noteq> y
     \<Longrightarrow> set (g x) \<inter> set (g y) = {}"
  by (induction xs) auto

lemma name_in_stepNames: "s \<in> set (traverseInternal t) \<Longrightarrow> name (props s) \<in> set (stepNames t)"
  by (simp add: stepNames_def)

lemma distinct_sub:
  "distinct (stepNames t) \<Longrightarrow> Some a \<in> set (subs t) \<Longrightarrow> distinct (stepNames a)"
  using distinct_concat_parts[of optNames "subs t" "Some a"]
  by (simp add: stepNames_subs[of t])

lemma distinct_subs_disjoint:
  "distinct (stepNames t) \<Longrightarrow> Some a \<in> set (subs t) \<Longrightarrow> Some b \<in> set (subs t) \<Longrightarrow> a \<noteq> b
     \<Longrightarrow> set (stepNames a) \<inter> set (stepNames b) = {}"
  using distinct_concat_disjoint[of optNames "subs t" "Some a" "Some b"]
  by (simp add: stepNames_subs[of t])

lemma head_name_not_below:
  "distinct (stepNames t) \<Longrightarrow> Some a \<in> set (subs t) \<Longrightarrow> name (props t) \<notin> set (stepNames a)"
  by (subst (asm) stepNames_subs) force

text \<open>A step below the head of a tree is below one of the head's slots.\<close>

lemma below_head:
  "s \<in> set (traverseInternal t) \<Longrightarrow> s \<noteq> t
     \<Longrightarrow> \<exists>a. Some a \<in> set (subs t) \<and> s \<in> set (traverseInternal a)"
  by (subst (asm) traverseInternal_subs) (auto simp: in_optSteps)

lemma child_in_steps:
  "Q \<in> set (traverseInternal t) \<Longrightarrow> Some Y \<in> set (subs Q) \<Longrightarrow> Y \<in> set (traverseInternal t)"
  using traverse_sub[of Y Q] traverseInternal_self[of Y]
proof (induction t rule: measure_induct_rule[where f = depth])
  case (less t)
  show ?case
  proof (cases "Q = t")
    case True
    then show ?thesis using less.prems traverse_sub[of Y t] by auto
  next
    case False
    then obtain a where a: "Some a \<in> set (subs t)" "Q \<in> set (traverseInternal a)"
      using below_head less.prems(1) by blast
    then have "Y \<in> set (traverseInternal a)"
      using less.IH[OF depth_sub[OF a(1)]] less.prems by blast
    then show ?thesis using traverse_sub[OF a(1)] by blast
  qed
qed

text \<open>A child of a step of a tree is not the head of the tree, when the names are distinct.\<close>

lemma child_not_head_name:
  "distinct (stepNames t) \<Longrightarrow> Q \<in> set (traverseInternal t) \<Longrightarrow> Some Y \<in> set (subs Q)
     \<Longrightarrow> name (props Y) \<noteq> name (props t)"
proof -
  assume d: "distinct (stepNames t)" and Q: "Q \<in> set (traverseInternal t)"
    and Y: "Some Y \<in> set (subs Q)"
  show ?thesis
  proof (cases "Q = t")
    case True
    then have "name (props Y) \<in> set (stepNames Y)" "Some Y \<in> set (subs t)"
      using Y by (simp_all add: stepNames_def)
    then show ?thesis using head_name_not_below[OF d] by metis
  next
    case False
    then obtain a where a: "Some a \<in> set (subs t)" "Q \<in> set (traverseInternal a)"
      using below_head Q by blast
    then have "Y \<in> set (traverseInternal a)" using child_in_steps Y by blast
    then have "name (props Y) \<in> set (stepNames a)" by (simp add: stepNames_def)
    then show ?thesis using head_name_not_below[OF d a(1)] by metis
  qed
qed

text \<open>With distinct names a step has one parent.\<close>

lemma unique_parent:
  "distinct (stepNames t) \<Longrightarrow> P \<in> set (traverseInternal t) \<Longrightarrow> Q \<in> set (traverseInternal t)
     \<Longrightarrow> Some X \<in> set (subs P) \<Longrightarrow> Some Y \<in> set (subs Q)
     \<Longrightarrow> name (props X) = name (props Y) \<Longrightarrow> P = Q"
proof (induction t rule: measure_induct_rule[where f = depth])
  case (less t)
  note d = less.prems(1)
  have cross: False
    if "Some a \<in> set (subs t)" "Some b \<in> set (subs t)" "a \<noteq> b"
      "X' \<in> set (traverseInternal a)" "Y' \<in> set (traverseInternal b)"
      "name (props X') = name (props Y')" for a b X' Y'
    using distinct_subs_disjoint[OF d that(1,2,3)] that(4,5,6)
    by (auto simp: stepNames_def)
  show ?case
  proof (cases "P = t")
    case Pt: True
    show ?thesis
    proof (cases "Q = t")
      case True
      then show ?thesis using Pt by simp
    next
      case False
      then obtain b where b: "Some b \<in> set (subs t)" "Q \<in> set (traverseInternal b)"
        using below_head less.prems(3) by blast
      have X: "Some X \<in> set (subs t)" using less.prems(4) Pt by simp
      have Yb: "Y \<in> set (traverseInternal b)" using child_in_steps b(2) less.prems(5) by blast
      show ?thesis
      proof (cases "X = b")
        case True
        then have "name (props Y) \<noteq> name (props X)"
          using child_not_head_name[OF distinct_sub[OF d b(1)] b(2) less.prems(5)] by simp
        then show ?thesis using less.prems(6) by simp
      next
        case False
        then show ?thesis
          using cross[OF X b(1) False traverseInternal_self Yb less.prems(6)] by simp
      qed
    qed
  next
    case Pt: False
    then obtain a where a: "Some a \<in> set (subs t)" "P \<in> set (traverseInternal a)"
      using below_head less.prems(2) by blast
    have Xa: "X \<in> set (traverseInternal a)" using child_in_steps a(2) less.prems(4) by blast
    show ?thesis
    proof (cases "Q = t")
      case True
      then have Y: "Some Y \<in> set (subs t)" using less.prems(5) by simp
      show ?thesis
      proof (cases "Y = a")
        case True
        then have "name (props X) \<noteq> name (props Y)"
          using child_not_head_name[OF distinct_sub[OF d a(1)] a(2) less.prems(4)] by simp
        then show ?thesis using less.prems(6) by simp
      next
        case False
        then have "a \<noteq> Y" by simp
        then show ?thesis
          using cross[OF a(1) Y _ Xa traverseInternal_self less.prems(6)] by simp
      qed
    next
      case False
      then obtain b where b: "Some b \<in> set (subs t)" "Q \<in> set (traverseInternal b)"
        using below_head less.prems(3) by blast
      have Yb: "Y \<in> set (traverseInternal b)" using child_in_steps b(2) less.prems(5) by blast
      show ?thesis
      proof (cases "a = b")
        case True
        then show ?thesis
          using less.IH[OF depth_sub[OF a(1)] distinct_sub[OF d a(1)] a(2) _ less.prems(4,5,6)] b(2)
          by simp
      next
        case False
        then show ?thesis using cross[OF a(1) b(1) False Xa Yb less.prems(6)] by simp
      qed
    qed
  qed
qed


lemma steps_sub_subset:
  "P \<in> set (traverseInternal t) \<Longrightarrow> set (traverseInternal P) \<subseteq> set (traverseInternal t)"
proof (induction t rule: measure_induct_rule[where f = depth])
  case (less t)
  show ?case
  proof (cases "P = t")
    case True
    then show ?thesis by simp
  next
    case False
    then obtain a where a: "Some a \<in> set (subs t)" "P \<in> set (traverseInternal a)"
      using below_head less.prems by blast
    then show ?thesis using less.IH[OF depth_sub[OF a(1)] a(2)] traverse_sub[OF a(1)] by blast
  qed
qed

lemma distinct_below:
  "distinct (stepNames t) \<Longrightarrow> P \<in> set (traverseInternal t) \<Longrightarrow> distinct (stepNames P)"
proof (induction t rule: measure_induct_rule[where f = depth])
  case (less t)
  show ?case
  proof (cases "P = t")
    case True
    then show ?thesis using less.prems by simp
  next
    case False
    then obtain a where a: "Some a \<in> set (subs t)" "P \<in> set (traverseInternal a)"
      using below_head less.prems by blast
    then show ?thesis
      using less.IH[OF depth_sub[OF a(1)] distinct_sub[OF less.prems(1) a(1)] a(2)] by blast
  qed
qed

lemma unique_in_tree:
  "distinct (stepNames t) \<Longrightarrow> x \<in> set (traverseInternal t) \<Longrightarrow> y \<in> set (traverseInternal t)
     \<Longrightarrow> name (props x) = name (props y) \<Longrightarrow> x = y"
  unfolding stepNames_def by (rule distinct_names_unique)

lemma list_all2_opt_same:
  "(\<And>a. Some a \<in> set xs \<Longrightarrow> R a a) \<Longrightarrow> list_all2 (rel_option R) xs xs"
proof (rule list.rel_refl_strong)
  fix z assume "\<And>a. Some a \<in> set xs \<Longrightarrow> R a a" "z \<in> set xs"
  then show "rel_option R z z" by (cases z) auto
qed

text \<open>
  A rewrite that changes one step \<open>P\<close> of a tree with distinct names, into a step
  \<open>P'\<close> below which it changes nothing: the result holds \<open>P'\<close>, and every other
  step of it has the properties and the type of a step of the tree that is not below
  \<open>P\<close>.
\<close>

lemma transferStep_single_site:
  assumes fP: "f P = Ok P'"
    and inner: "\<And>a s. Some a \<in> set (subs P') \<Longrightarrow> s \<in> set (traverseInternal a) \<Longrightarrow> f s = Ok s"
    and dP: "depth P' \<le> depth P + k"
  shows "distinct (stepNames t) \<Longrightarrow> P \<in> set (traverseInternal t)
     \<Longrightarrow> (\<And>s. s \<in> set (traverseInternal t) \<Longrightarrow> s \<noteq> P \<Longrightarrow> f s = Ok s)
     \<Longrightarrow> depth t + k \<le> d
     \<Longrightarrow> \<exists>r. transferStep d f t = Ok r \<and> P' \<in> set (traverseInternal r)
           \<and> (props r = props t \<and> stepType r = stepType t \<or> (P = t \<and> r = P'))
           \<and> (\<forall>s \<in> set (traverseInternal r). s \<in> set (traverseInternal P')
                \<or> (\<exists>s0 \<in> set (traverseInternal t). s0 \<notin> set (traverseInternal P)
                      \<and> props s = props s0 \<and> stepType s = stepType s0))"
proof (induction d arbitrary: t)
  case 0
  then show ?case using depth_pos[of t] by simp
next
  case (Suc d)
  show ?case
  proof (cases "P = t")
    case True
    have "transferStep d f a = Ok a" if "Some a \<in> set (subs P')" for a
    proof (rule transferStep_id)
      show "f s = Ok s" if "s \<in> set (traverseInternal a)" for s
        using inner[OF \<open>Some a \<in> set (subs P')\<close> that] .
      show "depth a \<le> d" using depth_sub[OF that] dP Suc.prems(4) True by simp
    qed
    then have "list_all2 (rel_option (\<lambda>a a'. transferStep d f a = Ok a')) (subs P') (subs P')"
      by (rule list_all2_opt_same)
    then have "transferStep (Suc d) f t = Ok P'"
      unfolding transferStep_eq_Ok using fP True
      by (intro exI[of _ P'] exI[of _ "subs P'"]) simp
    then show ?thesis using True by simp
  next
    case False
    then obtain a where a: "Some a \<in> set (subs t)" "P \<in> set (traverseInternal a)"
      using below_head Suc.prems(2) by blast
    have self: "f t = Ok t" using Suc.prems(3)[of t] False by simp
    have da: "distinct (stepNames a)" using distinct_sub[OF Suc.prems(1) a(1)] .
    have Psub: "set (traverseInternal P) \<subseteq> set (traverseInternal a)"
      using steps_sub_subset[OF a(2)] .
    have notP: "s \<notin> set (traverseInternal P)"
      if "Some b \<in> set (subs t)" "b \<noteq> a" "s \<in> set (traverseInternal b)" for b s
    proof
      assume "s \<in> set (traverseInternal P)"
      then have "name (props s) \<in> set (stepNames a)" using Psub by (auto simp: stepNames_def)
      moreover have "name (props s) \<in> set (stepNames b)" using that(3) by (simp add: stepNames_def)
      ultimately show False using distinct_subs_disjoint[OF Suc.prems(1) that(1) a(1) that(2)] by auto
    qed
    from Suc.IH[OF da a(2)] obtain ra where ra: "transferStep d f a = Ok ra"
      "P' \<in> set (traverseInternal ra)"
      "\<forall>s \<in> set (traverseInternal ra). s \<in> set (traverseInternal P')
          \<or> (\<exists>s0 \<in> set (traverseInternal a). s0 \<notin> set (traverseInternal P)
                \<and> props s = props s0 \<and> stepType s = stepType s0)"
      using Suc.prems(3,4) traverse_sub[OF a(1)] depth_sub[OF a(1)] by fastforce
    have other: "transferStep d f b = Ok b" if "Some b \<in> set (subs t)" "b \<noteq> a" for b
    proof (rule transferStep_id)
      show "f s = Ok s" if s: "s \<in> set (traverseInternal b)" for s
      proof -
        have "s \<noteq> P" using notP[OF \<open>Some b \<in> set (subs t)\<close> \<open>b \<noteq> a\<close> s] by auto
        then show ?thesis using Suc.prems(3) traverse_sub[OF \<open>Some b \<in> set (subs t)\<close>] s by blast
      qed
      show "depth b \<le> d" using depth_sub[OF that(1)] Suc.prems(4) by simp
    qed
    define ss where "ss = map (\<lambda>c. if c = Some a then Some ra else c) (subs t)"
    have len: "length ss = length (subs t)" by (simp add: ss_def)
    have ra_in: "Some ra \<in> set ss" using a(1) by (force simp: ss_def)
    have ss_cases: "x = ra \<or> (Some x \<in> set (subs t) \<and> x \<noteq> a)" if "Some x \<in> set ss" for x
      using that by (auto simp: ss_def split: if_splits)
    have la: "list_all2 (rel_option (\<lambda>a a'. transferStep d f a = Ok a')) (subs t) ss"
    proof (rule list_all2_all_nthI)
      fix i assume i: "i < length (subs t)"
      show "rel_option (\<lambda>a a'. transferStep d f a = Ok a') (subs t ! i) (ss ! i)"
      proof (cases "subs t ! i")
        case None
        then show ?thesis using i by (simp add: ss_def)
      next
        case (Some b)
        then have "Some b \<in> set (subs t)" using i by (metis nth_mem)
        then show ?thesis using Some i ra(1) other by (cases "b = a") (simp_all add: ss_def)
      qed
    qed (simp add: len)
    let ?r = "withSubs ss t"
    have r: "transferStep (Suc d) f t = Ok ?r"
      unfolding transferStep_eq_Ok using self la by blast
    have steps: "traverseInternal ?r = ?r # concat (map optSteps ss)"
      using len by (rule traverseInternal_withSubs)
    have P'in: "P' \<in> set (traverseInternal ?r)"
      unfolding steps using ra(2) ra_in by (auto simp: in_optSteps)
    have tnot: "t \<notin> set (traverseInternal P)"
    proof
      assume "t \<in> set (traverseInternal P)"
      then have "name (props t) \<in> set (stepNames a)" using Psub by (auto simp: stepNames_def)
      then show False using head_name_not_below[OF Suc.prems(1) a(1)] by simp
    qed
    have all: "s \<in> set (traverseInternal P')
          \<or> (\<exists>s0 \<in> set (traverseInternal t). s0 \<notin> set (traverseInternal P)
                \<and> props s = props s0 \<and> stepType s = stepType s0)"
      if s: "s \<in> set (traverseInternal ?r)" for s
    proof (cases "s = ?r")
      case True
      then show ?thesis using tnot by (intro disjI2 bexI[of _ t]) simp_all
    next
      case False
      then have "s \<in> set (concat (map optSteps ss))" using s unfolding steps by simp
      then obtain x where x: "Some x \<in> set ss" "s \<in> set (traverseInternal x)"
        by (auto simp: in_optSteps)
      show ?thesis
      proof (cases "x = ra")
        case True
        then show ?thesis using ra(3) x(2) traverse_sub[OF a(1)] by blast
      next
        case False
        then have "Some x \<in> set (subs t)" "x \<noteq> a" using ss_cases[OF x(1)] by auto
        then show ?thesis using notP[OF _ _ x(2)] traverse_sub[of x t] x(2) by blast
      qed
    qed
    show ?thesis using r P'in all by (intro exI[of _ ?r]) simp
  qed
qed

lemma next_in_subs: "nextAction s = Some Y \<Longrightarrow> Some Y \<in> set (subs s)"
  by (cases s) auto

lemma find_Some_unique:
  "x \<in> set xs \<Longrightarrow> Pr x \<Longrightarrow> (\<And>y. y \<in> set xs \<Longrightarrow> Pr y \<Longrightarrow> y = x) \<Longrightarrow> find Pr xs = Some x"
proof (induction xs)
  case Nil
  then show ?case by simp
next
  case (Cons a xs)
  show ?case
  proof (cases "Pr a")
    case True
    then have "a = x" using Cons.prems(3)[of a] by simp
    then show ?thesis using True by simp
  next
    case False
    then have "x \<in> set xs" using Cons.prems(1,2) by auto
    then have "find Pr xs = Some x"
    proof (rule Cons.IH)
      show "Pr x" by (rule Cons.prems(2))
      show "y = x" if "y \<in> set xs" "Pr y" for y
        by (rule Cons.prems(3)) (use that in simp_all)
    qed
    then show ?thesis using False by simp
  qed
qed

lemma subs_setNextAction: "subs (setNextAction x s) = butlast (subs s) @ [x]"
  by (cases s) simp_all

lemma subs_butlast_next: "subs s = butlast (subs s) @ [nextAction s]"
  by (cases s) simp_all

lemma stepType_setNextAction [simp]: "stepType (setNextAction x s) = stepType s"
  by (cases s rule: stepType.cases) simp_all

lemma set_spliceInsert: "set (spliceInsert i x xs) = insert x (set xs)"
proof -
  have "set (take k xs) \<union> set (drop k xs) = set xs" for k
    by (metis append_take_drop_id set_append)
  then show ?thesis by (auto simp: spliceInsert_def)
qed

lemma length_spliceInsert [simp]: "length (spliceInsert i x xs) = Suc (length xs)"
  by (simp add: spliceInsert_def spliceStart_def)

lemma foldr_max_Max: "foldr max xs (0::nat) = Max (insert 0 (set xs))"
proof (induction xs)
  case Nil
  then show ?case by simp
next
  case (Cons x xs)
  have "Max (insert x (insert 0 (set xs))) = max x (Max (insert 0 (set xs)))"
    by (rule Max_insert) simp_all
  then show ?case using Cons by (simp add: insert_commute)
qed

lemma distinct_last_not_before:
  "distinct (concat (map optNames (xs @ [Some R]))) \<Longrightarrow> Some R \<notin> set xs"
proof
  assume d: "distinct (concat (map optNames (xs @ [Some R])))" and m: "Some R \<in> set xs"
  have "name (props R) \<in> set (concat (map optNames xs))"
    using m by (force simp: stepNames_def)
  moreover have "name (props R) \<in> set (stepNames R)" by (simp add: stepNames_def)
  ultimately show False using d by auto
qed

text \<open>For a router that is the \<open>nextAction\<close> of \<open>P\<close>: the router after \<open>ADD_BRANCH\<close>.\<close>

lemma add_branch_in_tree:
  fixes i :: int
  assumes dist: "distinct (stepNames t)"
    and P: "P \<in> set (traverseInternal t)"
    and R: "nextAction P = Some (Router p cs n)" "name p = N"
    and fuel: "depth t \<le> d"
  defines "R' \<equiv> Router (setBranches (spliceInsert i (createEmptyBranch (length (branches (settings p))))
                                      (branches (settings p))) p) (spliceInsert i None cs) n"
  shows "\<exists>r. transferStep d (\<lambda>st. Ok (addBranchStep N i st)) t = Ok r
           \<and> find (\<lambda>s. name (props s) = N) (traverseInternal r) = Some R'"
proof -
  let ?R = "Router p cs n"
  let ?f = "\<lambda>st. Ok (addBranchStep N i st)"
  let ?P' = "setNextAction (Some R') P"
  have RP: "Some ?R \<in> set (subs P)" using R(1) by (rule next_in_subs)
  have Rin: "?R \<in> set (traverseInternal t)" using child_in_steps[OF P RP] .
  have dP: "distinct (stepNames P)" using distinct_below[OF dist P] .
  have dR: "distinct (stepNames ?R)" using distinct_below[OF dist Rin] .
  have fP: "?f P = Ok ?P'" using R by (simp add: addBranchStep_def R'_def)
  have others: "?f s = Ok s" if "s \<in> set (traverseInternal t)" "s \<noteq> P" for s
  proof -
    have "\<not> nextRouterNamed N s"
    proof
      assume "nextRouterNamed N s"
      then obtain Y where Y: "nextAction s = Some Y" "name (props Y) = N"
        by (auto simp: nextRouterNamed_def split: option.splits step.splits)
      then have "P = s"
        using unique_parent[OF dist P that(1) RP next_in_subs[OF Y(1)]] R(2) by simp
      then show False using that(2) by simp
    qed
    then show ?thesis by (simp add: addBranchStep_id)
  qed
  have belowR: "name (props s) \<noteq> N \<and> s \<in> set (traverseInternal t) \<and> s \<noteq> P"
    if "Some a \<in> set (subs ?R)" "s \<in> set (traverseInternal a)" for a s
  proof -
    have "name (props s) \<in> set (stepNames a)" using that(2) by (simp add: stepNames_def)
    then have 1: "name (props s) \<noteq> N" using head_name_not_below[OF dR that(1)] R(2) by auto
    have 2: "s \<in> set (traverseInternal ?R)" using traverse_sub[OF that(1)] that(2) by blast
    then have 3: "s \<in> set (traverseInternal t)" using steps_sub_subset[OF Rin] by blast
    have "name (props P) \<notin> set (stepNames ?R)" using head_name_not_below[OF dP RP] .
    then have "s \<noteq> P" using 2 by (auto simp: stepNames_def)
    then show ?thesis using 1 3 by simp
  qed
  have subsR': "set (subs R') \<subseteq> insert None (set (subs ?R))"
    by (auto simp: R'_def set_spliceInsert)
  have inner: "?f s = Ok s" if a: "Some a \<in> set (subs ?P')" and s: "s \<in> set (traverseInternal a)" for a s
  proof (cases "a = R'")
    case True
    show ?thesis
    proof (cases "s = R'")
      case sR: True
      have "\<not> nextRouterNamed N R'"
      proof
        assume "nextRouterNamed N R'"
        then obtain Y where Y: "n = Some Y" "name (props Y) = N"
          by (auto simp: nextRouterNamed_def R'_def split: option.splits step.splits)
        then have "Some Y \<in> set (subs ?R)" by simp
        then show False using belowR[of Y Y] Y(2) by simp
      qed
      then show ?thesis using sR by (simp add: addBranchStep_id)
    next
      case False
      then obtain c where c: "Some c \<in> set (subs R')" "s \<in> set (traverseInternal c)"
        using below_head s True by blast
      then have "Some c \<in> set (subs ?R)" using subsR' by auto
      then show ?thesis using belowR[OF _ c(2)] others by blast
    qed
  next
    case False
    then have "Some a \<in> set (butlast (subs P))" using a by (auto simp: subs_setNextAction)
    then have aP: "Some a \<in> set (subs P)" by (meson in_set_butlastD)
    have "s \<in> set (traverseInternal P)" using traverse_sub[OF aP] s by blast
    then have 1: "s \<in> set (traverseInternal t)" using steps_sub_subset[OF P] by blast
    have "name (props s) \<in> set (stepNames a)" using s by (simp add: stepNames_def)
    then have "s \<noteq> P" using head_name_not_below[OF dP aP] by auto
    then show ?thesis using others 1 by blast
  qed
  have depthR': "depth R' = depth ?R"
    by (simp add: R'_def foldr_max_Max set_spliceInsert)
  have dP': "depth ?P' \<le> depth P + 0"
  proof -
    have "depth (setNextAction (Some R') P) = depth (setNextAction (Some ?R) P)"
      by (cases P) (simp_all add: depthR')
    moreover have "setNextAction (Some ?R) P = P" using setNextAction_same[of P] R(1) by simp
    ultimately show ?thesis by simp
  qed
  have "\<exists>r. transferStep d ?f t = Ok r \<and> ?P' \<in> set (traverseInternal r)
           \<and> (props r = props t \<and> stepType r = stepType t \<or> (P = t \<and> r = ?P'))
           \<and> (\<forall>s \<in> set (traverseInternal r). s \<in> set (traverseInternal ?P')
                \<or> (\<exists>s0 \<in> set (traverseInternal t). s0 \<notin> set (traverseInternal P)
                      \<and> props s = props s0 \<and> stepType s = stepType s0))"
  proof (rule transferStep_single_site[where k = 0])
    show "?f P = Ok ?P'" by (rule fP)
    show "\<And>a s. Some a \<in> set (subs ?P') \<Longrightarrow> s \<in> set (traverseInternal a) \<Longrightarrow> ?f s = Ok s"
      by (rule inner)
    show "depth ?P' \<le> depth P + 0" by (rule dP')
    show "distinct (stepNames t)" by (rule dist)
    show "P \<in> set (traverseInternal t)" by (rule P)
    show "\<And>s. s \<in> set (traverseInternal t) \<Longrightarrow> s \<noteq> P \<Longrightarrow> ?f s = Ok s" by (rule others)
    show "depth t + 0 \<le> d" using fuel by simp
  qed
  then obtain r where r: "transferStep d ?f t = Ok r" "?P' \<in> set (traverseInternal r)"
    "\<forall>s \<in> set (traverseInternal r). s \<in> set (traverseInternal ?P')
        \<or> (\<exists>s0 \<in> set (traverseInternal t). s0 \<notin> set (traverseInternal P)
              \<and> props s = props s0 \<and> stepType s = stepType s0)"
    by blast
  have R'in: "R' \<in> set (traverseInternal r)"
    using child_in_steps[OF r(2), of R'] by (simp add: subs_setNextAction)
  have uniq: "s = R'" if s: "s \<in> set (traverseInternal r)" "name (props s) = N" for s
  proof -
    from r(3) s(1) consider "s \<in> set (traverseInternal ?P')"
      | s0 where "s0 \<in> set (traverseInternal t)" "s0 \<notin> set (traverseInternal P)" "props s = props s0"
      by blast
    then show ?thesis
    proof cases
      case 1
      show ?thesis
      proof (cases "s = ?P'")
        case True
        then have "name (props P) = N" using s(2) by simp
        then have "name (props P) \<in> set (stepNames ?R)" using R(2) by (simp add: stepNames_def)
        then show ?thesis using head_name_not_below[OF dP RP] by simp
      next
        case False
        then obtain a where a: "Some a \<in> set (subs ?P')" "s \<in> set (traverseInternal a)"
          using below_head 1 by blast
        show ?thesis
        proof (cases "a = R'")
          case True
          show ?thesis
          proof (cases "s = R'")
            case False
            then obtain c where c: "Some c \<in> set (subs R')" "s \<in> set (traverseInternal c)"
              using below_head a(2) True by blast
            then have "Some c \<in> set (subs ?R)" using subsR' by auto
            then show ?thesis using belowR[OF _ c(2)] s(2) by simp
          qed simp
        next
          case False
          then have "Some a \<in> set (butlast (subs P))" using a(1) by (auto simp: subs_setNextAction)
          then have aP: "Some a \<in> set (subs P)" by (meson in_set_butlastD)
          have "distinct (concat (map optNames (butlast (subs P) @ [Some ?R])))"
            using dP subs_butlast_next[of P] R(1) by (simp add: stepNames_subs[of P])
          then have "a \<noteq> ?R"
            using distinct_last_not_before \<open>Some a \<in> set (butlast (subs P))\<close> by blast
          then have "set (stepNames a) \<inter> set (stepNames ?R) = {}"
            using distinct_subs_disjoint[OF dP aP RP] by simp
          moreover have "N \<in> set (stepNames a)" using a(2) s(2) by (force simp: stepNames_def)
          moreover have "N \<in> set (stepNames ?R)" using R(2) by (simp add: stepNames_def)
          ultimately show ?thesis by blast
        qed
      qed
    next
      case 2
      then have "name (props s0) = name (props ?R)" using s(2) R(2) by simp
      then have "s0 = ?R" using unique_in_tree[OF dist 2(1) Rin] by simp
      then have "s0 \<in> set (traverseInternal P)"
        using traverse_sub[OF RP] by auto
      then show ?thesis using 2(2) by simp
    qed
  qed
  have "find (\<lambda>s. name (props s) = N) (traverseInternal r) = Some R'"
  proof (rule find_Some_unique)
    show "R' \<in> set (traverseInternal r)" by (rule R'in)
    show "name (props R') = N" by (simp add: R'_def setBranches_def R(2))
    show "y = R'" if "y \<in> set (traverseInternal r)" "name (props y) = N" for y
      using that by (rule uniq)
  qed
  then show ?thesis using r(1) by blast
qed

lemma everyStep_iff:
  "everyStep I t \<longleftrightarrow> I t \<and> (\<forall>a. Some a \<in> set (subs t) \<longrightarrow> everyStep I a)"
  unfolding everyStep_def
  by (subst traverseInternal_subs) (auto simp: list_all_iff optSteps_def split: option.splits)

lemma everyStep_sub: "everyStep I t \<Longrightarrow> Some a \<in> set (subs t) \<Longrightarrow> everyStep I a"
  using everyStep_iff by blast

lemma everyStep_head: "everyStep I t \<Longrightarrow> I t"
  by (cases t) (simp_all add: everyStep_def)


lemma everyStep_member: "everyStep I t \<Longrightarrow> s \<in> set (traverseInternal t) \<Longrightarrow> everyStep I s"
proof (induction t rule: measure_induct_rule[where f = depth])
  case (less t)
  show ?case
  proof (cases "s = t")
    case False
    then obtain a where a: "Some a \<in> set (subs t)" "s \<in> set (traverseInternal a)"
      using less.prems(2) by (subst (asm) traverseInternal_subs) (auto simp: in_optSteps)
    show ?thesis using less.IH[OF depth_sub[OF a(1)] everyStep_sub[OF less.prems(1) a(1)] a(2)] .
  qed (use less.prems in simp)
qed






lemma everyStep_conj: "everyStep (\<lambda>s. I s \<and> J s) t \<longleftrightarrow> everyStep I t \<and> everyStep J t"
  by (auto simp: everyStep_def list_all_iff)






















lemma graft_subs:
  "graft nm X t =
     (if name (props t) = nm then X else withSubs (map (map_option (graft nm X)) (subs t)) t)"
  by (cases t) (simp_all add: butlast_append)

lemma graft_id: "nm \<notin> set (stepNames t) \<Longrightarrow> graft nm X t = t"
proof (induction t rule: measure_induct_rule[where f = depth])
  case (less t)
  have "map_option (graft nm X) c = c" if "c \<in> set (subs t)" for c
  proof (cases c)
    case (Some a)
    then have a: "Some a \<in> set (subs t)" using that by simp
    have "nm \<notin> set (stepNames a)"
      using less.prems a by (subst (asm) stepNames_subs) force
    then show ?thesis using less.IH[OF depth_sub[OF a]] Some by simp
  qed simp
  then have "map (map_option (graft nm X)) (subs t) = subs t" by (simp add: map_idI)
  moreover have "name (props t) \<noteq> nm" using less.prems by (subst (asm) stepNames_subs) auto
  ultimately show ?case by (subst graft_subs) simp
qed

lemma transferStep_unchanged:
  "(\<And>s. s \<in> set (traverseInternal t) \<Longrightarrow> f s = Ok s) \<Longrightarrow> transferStep d f t = Ok r \<Longrightarrow> r = t"
proof (induction d arbitrary: t r)
  case 0
  then show ?case by simp
next
  case (Suc d)
  from Suc.prems(2) obtain u ss where u: "f t = Ok u"
    "list_all2 (rel_option (\<lambda>a a'. transferStep d f a = Ok a')) (subs u) ss" "r = withSubs ss u"
    unfolding transferStep_eq_Ok by blast
  have ut: "u = t" using Suc.prems(1)[of t] u(1) by simp
  have "ss = subs t"
  proof (rule sym, rule nth_equalityI)
    show "length (subs t) = length ss" using u(2) ut by (simp add: list_all2_lengthD)
    fix i assume i: "i < length (subs t)"
    have rel: "rel_option (\<lambda>a a'. transferStep d f a = Ok a') (subs t ! i) (ss ! i)"
      using u(2) ut i by (simp add: list_all2_nthD)
    show "subs t ! i = ss ! i"
    proof (cases "subs t ! i")
      case None
      then show ?thesis using rel by simp
    next
      case (Some a)
      then obtain a' where a': "ss ! i = Some a'" "transferStep d f a = Ok a'"
        using rel by (cases "ss ! i") auto
      have mem: "Some a \<in> set (subs t)" using Some i by (metis nth_mem)
      have "a' = a" using Suc.IH[OF _ a'(2)] Suc.prems(1) traverse_sub[OF mem] by blast
      then show ?thesis using Some a'(1) by simp
    qed
  qed
  then show ?case using u(3) ut by simp
qed

text \<open>
  A rewrite that changes one step \<open>P\<close> of a tree with distinct names into \<open>P'\<close>,
  below which it changes nothing: what it returns is the tree with \<open>P'\<close> in the place
  of \<open>P\<close>.
\<close>

lemma transferStep_graft:
  assumes fP: "f P = Ok P'"
    and inner: "\<And>a s. Some a \<in> set (subs P') \<Longrightarrow> s \<in> set (traverseInternal a) \<Longrightarrow> f s = Ok s"
  shows "distinct (stepNames t) \<Longrightarrow> P \<in> set (traverseInternal t)
     \<Longrightarrow> (\<And>s. s \<in> set (traverseInternal t) \<Longrightarrow> s \<noteq> P \<Longrightarrow> f s = Ok s)
     \<Longrightarrow> transferStep d f t = Ok r
     \<Longrightarrow> r = graft (name (props P)) P' t"
proof (induction d arbitrary: t r)
  case 0
  then show ?case by simp
next
  case (Suc d)
  from Suc.prems(4) obtain u ss where u: "f t = Ok u"
    "list_all2 (rel_option (\<lambda>a a'. transferStep d f a = Ok a')) (subs u) ss" "r = withSubs ss u"
    unfolding transferStep_eq_Ok by blast
  show ?case
  proof (cases "P = t")
    case True
    then have uP: "u = P'" using fP u(1) by simp
    have "ss = subs P'"
    proof (rule sym, rule nth_equalityI)
      show "length (subs P') = length ss" using u(2) uP by (simp add: list_all2_lengthD)
      fix i assume i: "i < length (subs P')"
      have rel: "rel_option (\<lambda>a a'. transferStep d f a = Ok a') (subs P' ! i) (ss ! i)"
        using u(2) uP i by (simp add: list_all2_nthD)
      show "subs P' ! i = ss ! i"
      proof (cases "subs P' ! i")
        case None
        then show ?thesis using rel by simp
      next
        case (Some a)
        then obtain a' where a': "ss ! i = Some a'" "transferStep d f a = Ok a'"
          using rel by (cases "ss ! i") auto
        have mem: "Some a \<in> set (subs P')" using Some i by (metis nth_mem)
        have "a' = a" using transferStep_unchanged[OF _ a'(2)] inner[OF mem] by blast
        then show ?thesis using Some a'(1) by simp
      qed
    qed
    then have "r = P'" using u(3) uP by simp
    then show ?thesis using True by (subst graft_subs) simp
  next
    case False
    have ut: "u = t" using Suc.prems(3)[OF _ ] False u(1) by (metis result.inject traverseInternal_self)
    have nm: "name (props t) \<noteq> name (props P)"
      using unique_in_tree[OF Suc.prems(1) traverseInternal_self Suc.prems(2)] False by auto
    have "ss = map (map_option (graft (name (props P)) P')) (subs t)"
    proof (rule nth_equalityI)
      show "length ss = length (map (map_option (graft (name (props P)) P')) (subs t))"
        using u(2) ut by (simp add: list_all2_lengthD)
      fix i assume "i < length ss"
      then have i: "i < length (subs t)" using u(2) ut by (simp add: list_all2_lengthD)
      have rel: "rel_option (\<lambda>a a'. transferStep d f a = Ok a') (subs t ! i) (ss ! i)"
        using u(2) ut i by (simp add: list_all2_nthD)
      show "ss ! i = map (map_option (graft (name (props P)) P')) (subs t) ! i"
      proof (cases "subs t ! i")
        case None
        then show ?thesis using rel i by simp
      next
        case (Some b)
        then obtain b' where b': "ss ! i = Some b'" "transferStep d f b = Ok b'"
          using rel by (cases "ss ! i") auto
        have mem: "Some b \<in> set (subs t)" using Some i by (metis nth_mem)
        have "b' = graft (name (props P)) P' b"
        proof (cases "P \<in> set (traverseInternal b)")
          case True
          show ?thesis
            using Suc.IH[OF distinct_sub[OF Suc.prems(1) mem] True _ b'(2)] Suc.prems(3)
              traverse_sub[OF mem] by blast
        next
          case False
          have "f s = Ok s" if "s \<in> set (traverseInternal b)" for s
            using Suc.prems(3)[of s] that False traverse_sub[OF mem] by blast
          then have "b' = b" using transferStep_unchanged[OF _ b'(2)] by blast
          moreover have "name (props P) \<notin> set (stepNames b)"
          proof
            assume "name (props P) \<in> set (stepNames b)"
            then obtain s where s: "s \<in> set (traverseInternal b)" "name (props s) = name (props P)"
              by (auto simp: stepNames_def)
            then have "s = P"
              using unique_in_tree[OF Suc.prems(1) _ Suc.prems(2)] traverse_sub[OF mem] by blast
            then show False using s(1) False by simp
          qed
          ultimately show ?thesis by (simp add: graft_id)
        qed
        then show ?thesis using Some b'(1) i by simp
      qed
    qed
    then show ?thesis using u(3) ut nm by (subst graft_subs) simp
  qed
qed

lemma distinct_concat_nth:
  "distinct (concat (map g xs)) \<Longrightarrow> i < length xs \<Longrightarrow> j < length xs \<Longrightarrow> i \<noteq> j
     \<Longrightarrow> set (g (xs ! i)) \<inter> set (g (xs ! j)) = {}"
proof (induction xs arbitrary: i j)
  case Nil
  then show ?case by simp
next
  case (Cons x xs)
  show ?case
  proof (cases i)
    case 0
    then obtain j' where j': "j = Suc j'" "j' < length xs" using Cons.prems by (cases j) auto
    then have "xs ! j' \<in> set xs" by simp
    then show ?thesis using Cons.prems(1) 0 j' by fastforce
  next
    case (Suc i')
    show ?thesis
    proof (cases j)
      case 0
      have "xs ! i' \<in> set xs" using Suc Cons.prems(2) by simp
      then show ?thesis using Cons.prems(1) 0 Suc by fastforce
    next
      case (Suc j')
      then show ?thesis using Cons.IH[of i' j'] Cons.prems \<open>i = Suc i'\<close> by simp
    qed
  qed
qed

lemma steps_withSubs_member:
  "length ss = length (subs t) \<Longrightarrow> Some b \<in> set ss \<Longrightarrow> x \<in> set (traverseInternal b)
     \<Longrightarrow> x \<in> set (traverseInternal (withSubs ss t))"
  by (subst traverseInternal_withSubs) (auto simp: in_optSteps)

lemma graft_member:
  "P \<in> set (traverseInternal t) \<Longrightarrow> name (props P) = nm
     \<Longrightarrow> X \<in> set (traverseInternal (graft nm X t))"
proof (induction t rule: measure_induct_rule[where f = depth])
  case (less t)
  show ?case
  proof (cases "name (props t) = nm")
    case True
    then show ?thesis by (subst graft_subs) simp
  next
    case False
    then have "P \<noteq> t" using less.prems(2) by auto
    then obtain a where a: "Some a \<in> set (subs t)" "P \<in> set (traverseInternal a)"
      using below_head less.prems(1) by blast
    have "X \<in> set (traverseInternal (graft nm X a))"
      using less.IH[OF depth_sub[OF a(1)] a(2) less.prems(2)] .
    moreover have "Some (graft nm X a) \<in> set (map (map_option (graft nm X)) (subs t))"
      using a(1) by force
    ultimately show ?thesis using False
      by (subst graft_subs) (simp add: steps_withSubs_member)
  qed
qed

text \<open>The slot of a tree with distinct names that holds a given step.\<close>

lemma slot_of:
  assumes "P \<in> set (traverseInternal t)" and "P \<noteq> t"
  obtains i a where "i < length (subs t)" "subs t ! i = Some a" "P \<in> set (traverseInternal a)"
proof -
  obtain a where a: "Some a \<in> set (subs t)" "P \<in> set (traverseInternal a)"
    using below_head assms by blast
  then obtain i where "i < length (subs t)" "subs t ! i = Some a" by (auto simp: in_set_conv_nth)
  then show ?thesis using that a(2) by blast
qed

lemma other_slots_without:
  assumes d: "distinct (stepNames t)"
    and i: "i < length (subs t)" "subs t ! i = Some a" and nm: "nm \<in> set (stepNames a)"
    and j: "j < length (subs t)" "j \<noteq> i"
  shows "nm \<notin> set (optNames (subs t ! j))"
proof -
  have "distinct (concat (map optNames (subs t)))"
    using d by (subst (asm) stepNames_subs) simp
  from distinct_concat_nth[OF this i(1) j(1)] j(2) i(2) nm show ?thesis by auto
qed

lemma graft_other_slots:
  assumes d: "distinct (stepNames t)"
    and i: "i < length (subs t)" "subs t ! i = Some a" and nm: "nm \<in> set (stepNames a)"
  shows "map (map_option (graft nm X)) (subs t) = (subs t)[i := Some (graft nm X a)]"
proof (rule nth_equalityI)
  fix j assume "j < length (map (map_option (graft nm X)) (subs t))"
  then have j: "j < length (subs t)" by simp
  show "map (map_option (graft nm X)) (subs t) ! j = (subs t)[i := Some (graft nm X a)] ! j"
  proof (cases "j = i")
    case True
    then show ?thesis using i by simp
  next
    case False
    have "nm \<notin> set (optNames (subs t ! j))" using other_slots_without[OF d i nm j False] .
    then have "map_option (graft nm X) (subs t ! j) = subs t ! j"
      by (cases "subs t ! j") (simp_all add: graft_id)
    then show ?thesis using j False by simp
  qed
qed simp

lemma stepNames_update:
  assumes "i < length (subs t)"
  shows "stepNames (withSubs ((subs t)[i := c]) t) =
     name (props t) # concat (map optNames (take i (subs t))) @ optNames c
       @ concat (map optNames (drop (Suc i) (subs t)))"
proof -
  have "subs (withSubs ((subs t)[i := c]) t) = (subs t)[i := c]" by simp
  then show ?thesis using assms
    by (subst stepNames_subs) (simp add: upd_conv_take_nth_drop)
qed

lemma stepNames_split:
  assumes "i < length (subs t)"
  shows "stepNames t =
     name (props t) # concat (map optNames (take i (subs t))) @ optNames (subs t ! i)
       @ concat (map optNames (drop (Suc i) (subs t)))"
  using stepNames_update[OF assms, of "subs t ! i"] by simp

text \<open>The names of a tree in which one step was replaced.\<close>

lemma graft_names:
  "distinct (stepNames t) \<Longrightarrow> P \<in> set (traverseInternal t)
     \<Longrightarrow> \<exists>pre post. stepNames t = pre @ stepNames P @ post
           \<and> stepNames (graft (name (props P)) X t) = pre @ stepNames X @ post"
proof (induction t rule: measure_induct_rule[where f = depth])
  case (less t)
  show ?case
  proof (cases "P = t")
    case True
    then show ?thesis by (intro exI[of _ "[]"]) (subst graft_subs, simp)
  next
    case False
    then obtain i a where i: "i < length (subs t)" "subs t ! i = Some a"
      "P \<in> set (traverseInternal a)"
      using slot_of less.prems(2) by blast
    have mem: "Some a \<in> set (subs t)" using i(1,2) by (metis nth_mem)
    have nm: "name (props t) \<noteq> name (props P)"
      using unique_in_tree[OF less.prems(1) traverseInternal_self less.prems(2)] False by auto
    obtain pre post where pp: "stepNames a = pre @ stepNames P @ post"
      "stepNames (graft (name (props P)) X a) = pre @ stepNames X @ post"
      using less.IH[OF depth_sub[OF mem] distinct_sub[OF less.prems(1) mem] i(3)] by blast
    have "name (props P) \<in> set (stepNames a)" using i(3) by (rule name_in_stepNames)
    then have g: "graft (name (props P)) X t
        = withSubs ((subs t)[i := Some (graft (name (props P)) X a)]) t"
      using nm graft_other_slots[OF less.prems(1) i(1,2)] by (subst graft_subs) simp
    let ?pre = "name (props t) # concat (map optNames (take i (subs t))) @ pre"
    let ?post = "post @ concat (map optNames (drop (Suc i) (subs t)))"
    have "stepNames t = ?pre @ stepNames P @ ?post"
      using stepNames_split[OF i(1)] i(2) pp(1) by simp
    moreover have "stepNames (graft (name (props P)) X t) = ?pre @ stepNames X @ ?post"
      unfolding g using stepNames_update[OF i(1)] pp(2) by simp
    ultimately show ?thesis by blast
  qed
qed

text \<open>
  A step apart from the one replaced, with a slot that does not hold it, keeps its
  properties and that slot.
\<close>

lemma graft_keeps_slot:
  "distinct (stepNames t) \<Longrightarrow> Q \<in> set (traverseInternal t) \<Longrightarrow> k < length (subs Q)
     \<Longrightarrow> nm \<notin> set (optNames (subs Q ! k)) \<Longrightarrow> name (props Q) \<noteq> nm
     \<Longrightarrow> (\<And>R. R \<in> set (traverseInternal t) \<Longrightarrow> name (props R) = nm
            \<Longrightarrow> Q \<notin> set (traverseInternal R))
     \<Longrightarrow> \<exists>Q' \<in> set (traverseInternal (graft nm X t)).
           props Q' = props Q \<and> subs Q' ! k = subs Q ! k \<and> length (subs Q') = length (subs Q)"
proof (induction t rule: measure_induct_rule[where f = depth])
  case (less t)
  have nt: "name (props t) \<noteq> nm" using less.prems(6)[of t] less.prems(2) by auto
  show ?case
  proof (cases "Q = t")
    case True
    have "map_option (graft nm X) (subs t ! k) = subs t ! k"
      using less.prems(4) True by (cases "subs t ! k") (simp_all add: graft_id)
    then have "subs (graft nm X t) ! k = subs Q ! k"
      using nt less.prems(3) True by (subst graft_subs) simp
    moreover have "props (graft nm X t) = props Q" using nt True by (subst graft_subs) simp
    moreover have "length (subs (graft nm X t)) = length (subs Q)"
      using nt True by (subst graft_subs) simp
    ultimately show ?thesis by (intro bexI[of _ "graft nm X t"]) simp_all
  next
    case False
    then obtain a where a: "Some a \<in> set (subs t)" "Q \<in> set (traverseInternal a)"
      using below_head less.prems(2) by blast
    have "\<exists>Q' \<in> set (traverseInternal (graft nm X a)).
           props Q' = props Q \<and> subs Q' ! k = subs Q ! k \<and> length (subs Q') = length (subs Q)"
      using less.IH[OF depth_sub[OF a(1)] distinct_sub[OF less.prems(1) a(1)] a(2)
          less.prems(3,4,5)] less.prems(6) traverse_sub[OF a(1)] by blast
    then obtain Q' where Q': "Q' \<in> set (traverseInternal (graft nm X a))"
      "props Q' = props Q" "subs Q' ! k = subs Q ! k" "length (subs Q') = length (subs Q)"
      by blast
    have "Some (graft nm X a) \<in> set (map (map_option (graft nm X)) (subs t))"
      using a(1) by force
    then have "Q' \<in> set (traverseInternal (withSubs (map (map_option (graft nm X)) (subs t)) t))"
      using Q'(1) by (intro steps_withSubs_member) simp_all
    then have "Q' \<in> set (traverseInternal (graft nm X t))"
      using nt by (subst graft_subs) simp
    then show ?thesis using Q'(2,3,4) by blast
  qed
qed

lemma deleteActionStep_withSubs:
  "deleteActionStep nm s = withSubs (map (spliceNext nm) (subs s)) s"
  by (cases s) (simp_all add: butlast_append)

lemma spliceNext_other: "nm \<notin> set (optNames c) \<Longrightarrow> spliceNext nm c = c"
proof (cases c)
  case (Some b)
  assume "nm \<notin> set (optNames c)"
  then have "name (props b) \<noteq> nm"
    using Some name_in_stepNames[OF traverseInternal_self, of b] by auto
  then show ?thesis using Some by (simp add: spliceNext_def)
qed (simp add: spliceNext_def)

lemma delete_at_parent:
  assumes d: "distinct (stepNames P)" and k: "k < length (subs P)" "subs P ! k = Some S"
    and nm: "name (props S) = nm"
  shows "deleteActionStep nm P = withSubs ((subs P)[k := nextAction S]) P"
proof -
  have inS: "nm \<in> set (stepNames S)" using nm name_in_stepNames[OF traverseInternal_self, of S] by simp
  have "map (spliceNext nm) (subs P) = (subs P)[k := nextAction S]"
  proof (rule nth_equalityI)
    fix j assume "j < length (map (spliceNext nm) (subs P))"
    then have j: "j < length (subs P)" by simp
    show "map (spliceNext nm) (subs P) ! j = (subs P)[k := nextAction S] ! j"
    proof (cases "j = k")
      case True
      then show ?thesis using k nm by (simp add: spliceNext_def)
    next
      case False
      then show ?thesis
        using spliceNext_other[OF other_slots_without[OF d k inS j False]] j by simp
    qed
  qed simp
  then show ?thesis by (simp add: deleteActionStep_withSubs)
qed

lemma delete_elsewhere:
  assumes d: "distinct (stepNames t)" and P: "P \<in> set (traverseInternal t)"
    and S: "Some S \<in> set (subs P)" and nm: "name (props S) = nm"
    and s: "s \<in> set (traverseInternal t)" "s \<noteq> P"
  shows "deleteActionStep nm s = s"
proof -
  have "spliceNext nm c = c" if "c \<in> set (subs s)" for c
  proof (cases c)
    case (Some b)
    have "name (props b) \<noteq> nm"
    proof
      assume "name (props b) = nm"
      then have "s = P" using unique_parent[OF d s(1) P _ S] that Some nm by simp
      then show False using s(2) by simp
    qed
    then show ?thesis using Some by (simp add: spliceNext_def)
  qed (simp add: spliceNext_def)
  then have "map (spliceNext nm) (subs s) = subs s" by (simp add: map_idI)
  then show ?thesis by (simp add: deleteActionStep_withSubs)
qed

lemma not_below_itself:
  "distinct (stepNames P) \<Longrightarrow> Some a \<in> set (subs P) \<Longrightarrow> s \<in> set (traverseInternal a) \<Longrightarrow> s \<noteq> P"
  using head_name_not_below[of P a] name_in_stepNames[of s a] by auto

lemma below_slot_in_tree:
  "P \<in> set (traverseInternal t) \<Longrightarrow> Some a \<in> set (subs P) \<Longrightarrow> s \<in> set (traverseInternal a)
     \<Longrightarrow> s \<in> set (traverseInternal t)"
  using steps_sub_subset[of P t] traverse_sub[of a P] by blast

text \<open>What \<^verbatim>\<open>deleteAction\<close> returns, for a step in slot \<open>k\<close> of its parent.\<close>

lemma delete_graft:
  assumes d: "distinct (stepNames t)" and P: "P \<in> set (traverseInternal t)"
    and k: "k < length (subs P)" "subs P ! k = Some S" and nm: "name (props S) = nm"
    and tr: "transferStep fuel (\<lambda>st. Ok (deleteActionStep nm st)) t = Ok t1"
  shows "t1 = graft (name (props P)) (withSubs ((subs P)[k := nextAction S]) P) t"
proof (rule transferStep_graft[OF _ _ d P _ tr])
  have dP: "distinct (stepNames P)" using distinct_below[OF d P] .
  have Sin: "Some S \<in> set (subs P)" using k by (metis nth_mem)
  show "Ok (deleteActionStep nm P) = Ok (withSubs ((subs P)[k := nextAction S]) P)"
    using delete_at_parent[OF dP k nm] by simp
  show "Ok (deleteActionStep nm s) = Ok s" if "s \<in> set (traverseInternal t)" "s \<noteq> P" for s
    using delete_elsewhere[OF d P Sin nm that] by simp
  show "Ok (deleteActionStep nm s) = Ok s"
    if a: "Some a \<in> set (subs (withSubs ((subs P)[k := nextAction S]) P))"
      and s: "s \<in> set (traverseInternal a)" for a s
  proof -
    have "Some a \<in> set ((subs P)[k := nextAction S])" using a by simp
    then have "Some a \<in> set (subs P) \<or> Some a = nextAction S"
      using set_update_subset_insert[of "subs P" k "nextAction S"] by auto
    then have "\<exists>b. Some b \<in> set (subs P) \<and> s \<in> set (traverseInternal b)"
    proof
      assume "Some a = nextAction S"
      then have "Some a \<in> set (subs S)" using next_in_subs[of S a] by simp
      then have "s \<in> set (traverseInternal S)" using traverse_sub[of a S] s by blast
      then show ?thesis using Sin by blast
    qed (use s in blast)
    then obtain b where b: "Some b \<in> set (subs P)" "s \<in> set (traverseInternal b)" by blast
    have "s \<noteq> P" using not_below_itself[OF dP b] .
    moreover have "s \<in> set (traverseInternal t)" using below_slot_in_tree[OF P b] .
    ultimately show ?thesis using delete_elsewhere[OF d P Sin nm] by simp
  qed
qed

lemma stepNames_next:
  "stepNames S = name (props S) # concat (map optNames (butlast (subs S))) @ optNames (nextAction S)"
  by (subst stepNames_subs, subst subs_butlast_next) simp

text \<open>The names after the deletion: those of the step and of its slots are gone.\<close>

lemma delete_names:
  assumes d: "distinct (stepNames t)" and P: "P \<in> set (traverseInternal t)"
    and k: "k < length (subs P)" "subs P ! k = Some S"
  shows "\<exists>A B. stepNames t = A @ stepNames S @ B
           \<and> stepNames (graft (name (props P)) (withSubs ((subs P)[k := nextAction S]) P) t)
               = A @ optNames (nextAction S) @ B"
proof -
  let ?P1 = "withSubs ((subs P)[k := nextAction S]) P"
  obtain pre post where pp: "stepNames t = pre @ stepNames P @ post"
    "stepNames (graft (name (props P)) ?P1 t) = pre @ stepNames ?P1 @ post"
    using graft_names[OF d P] by blast
  let ?A = "pre @ name (props P) # concat (map optNames (take k (subs P)))"
  let ?B = "concat (map optNames (drop (Suc k) (subs P))) @ post"
  have "stepNames t = ?A @ stepNames S @ ?B"
    using pp(1) stepNames_split[OF k(1)] k(2) by simp
  moreover have "stepNames (graft (name (props P)) ?P1 t) = ?A @ optNames (nextAction S) @ ?B"
    using pp(2) stepNames_update[OF k(1)] by simp
  ultimately show ?thesis by blast
qed

lemma addToParent_slot:
  assumes "addToParent E request cs D l = Ok D2"
    and "targetSlot D l (branchIndex request) = Some j"
  shows "j < length (subs D)
       \<and> (\<exists>A. createAction E (action request) (headSlots (subs D ! j) cs) = Ok A
              \<and> D2 = withSubs ((subs D)[j := Some A]) D)"
proof (cases D)
  case (Leaf p k n)
  then show ?thesis using assms by (auto simp: rbind_eq_Ok)
next
  case (Branch p s f n)
  then show ?thesis using assms
    by (cases l) (auto simp: rbind_eq_Ok split: if_splits)
next
  case (Loop p b n)
  then show ?thesis using assms
    by (cases l) (auto simp: rbind_eq_Ok split: if_splits)
next
  case (Router p chs n)
  show ?thesis
  proof (cases l)
    case None
    then show ?thesis using assms Router by (auto simp: rbind_eq_Ok)
  next
    case (Some loc)
    show ?thesis
    proof (cases "loc = INSIDE_BRANCH \<and> branchIndex request \<noteq> None")
      case True
      then obtain i where i: "branchIndex request = Some i" by auto
      have r: "0 \<le> i" "i < 4294967295" "nat i < length chs" "j = nat i"
        using assms(2) Router Some True i by (auto split: if_splits)
      have g: "getChild i chs = subs D ! j" using r Router by (simp add: getChild_def nth_append)
      have s: "setChild i v chs = chs[nat i := v]" for v using r by (simp add: setChild_def)
      obtain A where A: "createAction E (action request) (headSlots (getChild i chs) cs) = Ok A"
        "D2 = Router p (setChild i (Some A) chs) n"
        using assms(1) Router Some True i by (auto simp: rbind_eq_Ok)
      have "D2 = withSubs ((subs D)[j := Some A]) D"
        using A(2) Router r s by (simp add: list_update_append1 butlast_append)
      then show ?thesis using A(1) g r Router by auto
    next
      case False
      then show ?thesis using assms Router Some
        by (auto simp: rbind_eq_Ok butlast_append split: if_splits)
    qed
  qed
qed

lemma stepType_Leaf:
  "stepType (Leaf p k n) \<noteq> Action ROUTER" "stepType (Leaf p k n) \<noteq> Action BRANCH"
  "stepType (Leaf p k n) \<noteq> Action LOOP_ON_ITEMS"
  by (cases k; simp)+

lemma targetSlot_cong:
  "stepType D1 = stepType D \<Longrightarrow> length (subs D1) = length (subs D)
     \<Longrightarrow> targetSlot D1 l i = targetSlot D l i"
  by (cases D; cases D1; cases l) (auto simp: stepType_Leaf stepType_Leaf[symmetric])

lemma transferStep_visits:
  "transferStep d f t = Ok r \<Longrightarrow> P \<in> set (traverseInternal t)
     \<Longrightarrow> (\<And>s. s \<in> set (traverseInternal t) \<Longrightarrow> s \<noteq> P \<Longrightarrow> f s = Ok s)
     \<Longrightarrow> \<exists>P'. f P = Ok P'"
proof (induction d arbitrary: t r)
  case 0
  then show ?case by simp
next
  case (Suc d)
  from Suc.prems(1) obtain u ss where u: "f t = Ok u"
    "list_all2 (rel_option (\<lambda>a a'. transferStep d f a = Ok a')) (subs u) ss"
    unfolding transferStep_eq_Ok by blast
  show ?case
  proof (cases "P = t")
    case True
    then show ?thesis using u(1) by blast
  next
    case False
    then have ut: "u = t" using Suc.prems(3)[of t] u(1) by simp
    obtain i a where i: "i < length (subs t)" "subs t ! i = Some a" "P \<in> set (traverseInternal a)"
      using slot_of[OF Suc.prems(2) False] by blast
    have "rel_option (\<lambda>a a'. transferStep d f a = Ok a') (subs t ! i) (ss ! i)"
      using u(2) ut i(1) by (simp add: list_all2_nthD)
    then obtain a' where a': "transferStep d f a = Ok a'"
      using i(2) by (cases "ss ! i") auto
    have mem: "Some a \<in> set (subs t)" using i(1,2) by (metis nth_mem)
    show ?thesis using Suc.IH[OF a' i(3)] Suc.prems(3) traverse_sub[OF mem] by blast
  qed
qed

lemma createAction_head:
  assumes "createAction E request (headSlots n cs) = Ok A"
  shows "name (props A) = actionName request" and "nextAction A = n"
    and "stepType A = actionType request"
    and "butlast (subs A) =
           (case actionType request of
              Action BRANCH \<Rightarrow> [None, None]
            | Action LOOP_ON_ITEMS \<Rightarrow> [None]
            | Action ROUTER \<Rightarrow> (case cs of None \<Rightarrow> [None, None] | Some c \<Rightarrow> c)
            | _ \<Rightarrow> [])"
  using assms
  by (auto simp: createAction_def headSlots_def Let_def split: StepType.splits ActionType.splits)

text \<open>The image of a step that is not below the step replaced.\<close>

lemma graft_image:
  "Q \<in> set (traverseInternal t)
     \<Longrightarrow> (\<And>R. R \<in> set (traverseInternal t) \<Longrightarrow> name (props R) = nm
            \<Longrightarrow> Q \<notin> set (traverseInternal R))
     \<Longrightarrow> graft nm X Q \<in> set (traverseInternal (graft nm X t))"
proof (induction t rule: measure_induct_rule[where f = depth])
  case (less t)
  have nt: "name (props t) \<noteq> nm" using less.prems(2)[of t] less.prems(1) by auto
  show ?case
  proof (cases "Q = t")
    case True
    then show ?thesis by simp
  next
    case False
    then obtain a where a: "Some a \<in> set (subs t)" "Q \<in> set (traverseInternal a)"
      using below_head less.prems(1) by blast
    have "graft nm X Q \<in> set (traverseInternal (graft nm X a))"
      using less.IH[OF depth_sub[OF a(1)] a(2)] less.prems(2) traverse_sub[OF a(1)] by blast
    moreover have "Some (graft nm X a) \<in> set (map (map_option (graft nm X)) (subs t))"
      using a(1) by force
    ultimately have "graft nm X Q
        \<in> set (traverseInternal (withSubs (map (map_option (graft nm X)) (subs t)) t))"
      by (intro steps_withSubs_member) simp_all
    then show ?thesis using nt by (subst (2) graft_subs) simp
  qed
qed

lemma graft_shape:
  assumes "name (props Q) \<noteq> nm"
  shows "props (graft nm X Q) = props Q" and "stepType (graft nm X Q) = stepType Q"
    and "length (subs (graft nm X Q)) = length (subs Q)"
  using assms by (subst graft_subs, simp)+

lemma in_subs_cases:
  "Some b \<in> set (subs A) \<Longrightarrow> Some b \<in> set (butlast (subs A)) \<or> nextAction A = Some b"
  by (subst (asm) subs_butlast_next) auto

lemma createAction_head_slots:
  assumes "createAction E request (headSlots n cs) = Ok A" and "Some b \<in> set (butlast (subs A))"
  shows "\<exists>c. cs = Some c \<and> Some b \<in> set c"
proof (cases "actionType request")
  case (Action t)
  then show ?thesis using assms(2) unfolding createAction_head(4)[OF assms(1)]
    by (cases t; cases cs) auto
next
  case (Trigger t)
  then show ?thesis using assms(2) unfolding createAction_head(4)[OF assms(1)] by simp
qed

text \<open>What \<^verbatim>\<open>addAction\<close> returns, for a parent with a slot for the location.\<close>

lemma add_graft:
  assumes d1: "distinct (stepNames t1)"
    and D1: "D1 \<in> set (traverseInternal t1)" "name (props D1) = parentStep request"
    and slot: "targetSlot D1 (stepLocationRelativeToParent request) (branchIndex request) = Some j"
    and ne: "actionName (action request) \<noteq> parentStep request"
    and clean: "\<And>c b s. cs = Some c \<Longrightarrow> Some b \<in> set c \<Longrightarrow> s \<in> set (traverseInternal b)
                 \<Longrightarrow> name (props s) \<noteq> parentStep request"
    and tr: "transferStep fuel (addActionStep E request cs) t1 = Ok t2"
  shows "j < length (subs D1)
       \<and> (\<exists>A. createAction E (action request) (headSlots (subs D1 ! j) cs) = Ok A
              \<and> t2 = graft (name (props D1)) (withSubs ((subs D1)[j := Some A]) D1) t1)"
proof -
  have other: "addActionStep E request cs s = Ok s"
    if "s \<in> set (traverseInternal t1)" "s \<noteq> D1" for s
  proof -
    have "name (props s) \<noteq> parentStep request"
      using unique_in_tree[OF d1 that(1) D1(1)] that(2) D1(2) by auto
    then show ?thesis by (simp add: addActionStep_def)
  qed
  obtain D2 where D2: "addActionStep E request cs D1 = Ok D2"
    using transferStep_visits[OF tr D1(1) other] by blast
  then have "addToParent E request cs D1 (stepLocationRelativeToParent request) = Ok D2"
    using D1(2) by (simp add: addActionStep_def)
  from addToParent_slot[OF this slot] obtain A where j: "j < length (subs D1)"
    and A: "createAction E (action request) (headSlots (subs D1 ! j) cs) = Ok A"
    "D2 = withSubs ((subs D1)[j := Some A]) D1"
    by blast
  have dD: "distinct (stepNames D1)" using distinct_below[OF d1 D1(1)] .
  have below: "name (props s) \<noteq> parentStep request"
    if "Some a \<in> set (subs D1)" "s \<in> set (traverseInternal a)" for a s
    using head_name_not_below[OF dD that(1)] name_in_stepNames[OF that(2)] D1(2) by auto
  have inner: "addActionStep E request cs s = Ok s"
    if a: "Some a \<in> set (subs D2)" and s: "s \<in> set (traverseInternal a)" for a s
  proof -
    have "Some a \<in> set ((subs D1)[j := Some A])" using a A(2) by simp
    then have "a = A \<or> Some a \<in> set (subs D1)"
      using set_update_subset_insert[of "subs D1" j "Some A"] by auto
    then have "name (props s) \<noteq> parentStep request"
    proof
      assume aA: "a = A"
      show ?thesis
      proof (cases "s = A")
        case True
        then show ?thesis using createAction_head(1)[OF A(1)] ne by simp
      next
        case False
        then obtain b where b: "Some b \<in> set (subs A)" "s \<in> set (traverseInternal b)"
          using below_head s aA by blast
        from in_subs_cases[OF b(1)] show ?thesis
        proof
          assume "Some b \<in> set (butlast (subs A))"
          then obtain c where "cs = Some c" "Some b \<in> set c"
            using createAction_head_slots[OF A(1)] by blast
          then show ?thesis using clean b(2) by blast
        next
          assume "nextAction A = Some b"
          then have "subs D1 ! j = Some b" using createAction_head(2)[OF A(1)] by simp
          then have "Some b \<in> set (subs D1)" using j by (metis nth_mem)
          then show ?thesis using below b(2) by blast
        qed
      qed
    qed (use below s in blast)
    then show ?thesis by (simp add: addActionStep_def)
  qed
  have "t2 = graft (name (props D1)) D2 t1"
    using transferStep_graft[OF D2 inner d1 D1(1) other tr] by simp
  then show ?thesis using j A by blast
qed

lemma delete_result:
  assumes d: "distinct (stepNames t)" and P: "P \<in> set (traverseInternal t)"
    and k: "k < length (subs P)" "subs P ! k = Some S"
    and t1: "t1 = graft (name (props P)) (withSubs ((subs P)[k := nextAction S]) P) t"
  shows "distinct (stepNames t1)"
    and "name (props S) \<notin> set (stepNames t1)"
    and "set (concat (map optNames (butlast (subs S)))) \<inter> set (stepNames t1) = {}"
    and "\<And>x. x \<in> set (stepNames t) \<Longrightarrow> x \<notin> set (stepNames S) \<Longrightarrow> x \<in> set (stepNames t1)"
    and "set (stepNames t1) \<subseteq> set (stepNames t)"
    and "withSubs ((subs P)[k := nextAction S]) P \<in> set (traverseInternal t1)"
proof -
  obtain A B where AB: "stepNames t = A @ stepNames S @ B"
    "stepNames t1 = A @ optNames (nextAction S) @ B"
    using delete_names[OF d P k] t1 by blast
  have dd: "distinct (A @ (name (props S) # concat (map optNames (butlast (subs S)))
              @ optNames (nextAction S)) @ B)"
    using d AB(1) stepNames_next[of S] by simp
  show "distinct (stepNames t1)" using dd AB(2) by auto
  show "name (props S) \<notin> set (stepNames t1)" using dd AB(2) by auto
  show "set (concat (map optNames (butlast (subs S)))) \<inter> set (stepNames t1) = {}"
    using dd unfolding AB(2) by auto
  show "x \<in> set (stepNames t1)" if "x \<in> set (stepNames t)" "x \<notin> set (stepNames S)" for x
    using that AB by auto
  show "set (stepNames t1) \<subseteq> set (stepNames t)"
    unfolding AB using stepNames_next[of S] by auto
  show "withSubs ((subs P)[k := nextAction S]) P \<in> set (traverseInternal t1)"
    unfolding t1 using graft_member[OF P] by simp
qed

lemma stays_below:
  assumes x: "x \<in> set (traverseInternal P)" "x \<noteq> P" "x \<notin> set (traverseInternal S)"
    and k: "k < length (subs P)" "subs P ! k = Some S"
  shows "x \<in> set (traverseInternal (withSubs ((subs P)[k := c]) P))"
proof -
  obtain i a where i: "i < length (subs P)" "subs P ! i = Some a" "x \<in> set (traverseInternal a)"
    using slot_of[OF x(1,2)] by blast
  have "i \<noteq> k" using i(2,3) k(2) x(3) by auto
  then have "Some a \<in> set ((subs P)[k := c])"
    using i(1,2) by (metis length_list_update nth_list_update_neq nth_mem)
  then show ?thesis using i(3) by (intro steps_withSubs_member) simp_all
qed

lemma stays_below_insert:
  assumes x: "x \<in> set (traverseInternal D1)" "x \<noteq> D1"
    and j: "j < length (subs D1)" and A: "nextAction A = subs D1 ! j"
  shows "x \<in> set (traverseInternal (withSubs ((subs D1)[j := Some A]) D1))"
proof -
  obtain i a where i: "i < length (subs D1)" "subs D1 ! i = Some a" "x \<in> set (traverseInternal a)"
    using slot_of[OF x(1,2)] by blast
  have "\<exists>b. Some b \<in> set ((subs D1)[j := Some A]) \<and> x \<in> set (traverseInternal b)"
  proof (cases "i = j")
    case True
    then have "Some a \<in> set (subs A)" using A i(2) next_in_subs[of A a] by simp
    then have "x \<in> set (traverseInternal A)" using traverse_sub[of a A] i(3) by blast
    moreover have "Some A \<in> set ((subs D1)[j := Some A])" using j by (simp add: set_update_memI)
    ultimately show ?thesis by blast
  next
    case False
    then have "Some a \<in> set ((subs D1)[j := Some A])"
      using i(1,2) by (metis length_list_update nth_list_update_neq nth_mem)
    then show ?thesis using i(3) by blast
  qed
  then show ?thesis by (auto intro: steps_withSubs_member)
qed

text \<open>The destination step after the deletion: of the kind and with the slots it had.\<close>

lemma destination_after_delete:
  assumes d: "distinct (stepNames t)" and P: "P \<in> set (traverseInternal t)"
    and k: "k < length (subs P)" "subs P ! k = Some S"
    and D: "D \<in> set (traverseInternal t)" "D \<notin> set (traverseInternal S)"
    and t1: "t1 = graft (name (props P)) (withSubs ((subs P)[k := nextAction S]) P) t"
  shows "\<exists>D1 \<in> set (traverseInternal t1). props D1 = props D \<and> stepType D1 = stepType D
           \<and> length (subs D1) = length (subs D)
           \<and> (D = P \<longrightarrow> D1 = withSubs ((subs P)[k := nextAction S]) P)"
proof -
  let ?P1 = "withSubs ((subs P)[k := nextAction S]) P"
  have P1: "?P1 \<in> set (traverseInternal t1)" unfolding t1 using graft_member[OF P] by simp
  show ?thesis
  proof (cases "D = P")
    case True
    then show ?thesis using P1 k(1) by (intro bexI[of _ ?P1]) simp_all
  next
    case False
    show ?thesis
    proof (cases "D \<in> set (traverseInternal P)")
      case True
      then have "D \<in> set (traverseInternal ?P1)" using stays_below[OF _ False D(2) k] by simp
      then have "D \<in> set (traverseInternal t1)" using steps_sub_subset[OF P1] by blast
      then show ?thesis using False by (intro bexI[of _ D]) simp_all
    next
      case out: False
      have nm: "name (props D) \<noteq> name (props P)"
        using unique_in_tree[OF d D(1) P] False by auto
      have "graft (name (props P)) ?P1 D \<in> set (traverseInternal t1)"
        unfolding t1
      proof (rule graft_image[OF D(1)])
        fix R assume "R \<in> set (traverseInternal t)" "name (props R) = name (props P)"
        then have "R = P" using unique_in_tree[OF d _ P] by blast
        then show "D \<notin> set (traverseInternal R)" using out by simp
      qed
      then show ?thesis using graft_shape[OF nm] False
        by (intro bexI[of _ "graft (name (props P)) ?P1 D"]) simp_all
    qed
  qed
qed

lemma names_below:
  "s \<in> set (traverseInternal S) \<Longrightarrow> name (props s) \<in> set (stepNames S)"
  by (rule name_in_stepNames)

lemma move_two_stages:
  assumes d: "distinct (stepNames t)" and P: "P \<in> set (traverseInternal t)"
    and k: "k < length (subs P)" "subs P ! k = Some S"
    and D: "D \<in> set (traverseInternal t)" "D \<notin> set (traverseInternal S)"
    and slot: "targetSlot D l i = Some j" and neq: "\<not> (D = P \<and> j = k)"
    and req: "parentStep request = name (props D)" "stepLocationRelativeToParent request = l"
      "branchIndex request = i" "action request = asRequest S"
    and cs: "cs = (case S of Router p c n \<Rightarrow> Some c | _ \<Rightarrow> None)"
    and del: "transferStep fuel (\<lambda>st. Ok (deleteActionStep (name (props S)) st)) t = Ok t1"
    and add: "transferStep fuel2 (addActionStep E request cs) t1 = Ok t2"
  shows "\<exists>D1 A P2. distinct (stepNames t1) \<and> D1 \<in> set (traverseInternal t1)
           \<and> name (props D1) = name (props D) \<and> j < length (subs D1)
           \<and> createAction E (asRequest S) (headSlots (subs D1 ! j) cs) = Ok A
           \<and> t2 = graft (name (props D)) (withSubs ((subs D1)[j := Some A]) D1) t1
           \<and> A \<in> set (traverseInternal t2)
           \<and> P2 \<in> set (traverseInternal t2) \<and> props P2 = props P \<and> subs P2 ! k = nextAction S
           \<and> length (subs P2) = length (subs P)
           \<and> (nextAction S \<noteq> None \<longrightarrow> subs D1 ! j \<noteq> nextAction S)"
proof -
  let ?P1 = "withSubs ((subs P)[k := nextAction S]) P"
  have Sin: "Some S \<in> set (subs P)" using k by (metis nth_mem)
  have St: "S \<in> set (traverseInternal t)" using child_in_steps[OF P Sin] .
  have t1: "t1 = graft (name (props P)) ?P1 t" using delete_graft[OF d P k refl del] .
  note r1 = delete_result[OF d P k t1]
  have dnS: "name (props D) \<notin> set (stepNames S)"
  proof
    assume "name (props D) \<in> set (stepNames S)"
    then obtain s where s: "s \<in> set (traverseInternal S)" "name (props s) = name (props D)"
      by (auto simp: stepNames_def)
    then have "s = D" using unique_in_tree[OF d _ D(1)] steps_sub_subset[OF St] by blast
    then show False using s(1) D(2) by simp
  qed
  obtain D1 where D1: "D1 \<in> set (traverseInternal t1)" "props D1 = props D"
    "stepType D1 = stepType D" "length (subs D1) = length (subs D)" "D = P \<longrightarrow> D1 = ?P1"
    using destination_after_delete[OF d P k D t1] by blast
  have slot1: "targetSlot D1 (stepLocationRelativeToParent request) (branchIndex request) = Some j"
    using targetSlot_cong[OF D1(3,4)] slot req(2,3) by simp
  have ne: "actionName (action request) \<noteq> parentStep request"
    using dnS names_below[OF traverseInternal_self, of S] req(1,4) by (auto simp: asRequest_def)
  have clean: "name (props s) \<noteq> parentStep request"
    if "cs = Some c" "Some b \<in> set c" "s \<in> set (traverseInternal b)" for c b s
  proof -
    have "Some b \<in> set (subs S)" using that(1,2) cs by (cases S) auto
    then have "s \<in> set (traverseInternal S)" using traverse_sub[of b S] that(3) by blast
    then show ?thesis using dnS names_below req(1) by metis
  qed
  have D1n: "name (props D1) = parentStep request" using D1(2) req(1) by simp
  have "j < length (subs D1)
       \<and> (\<exists>A. createAction E (action request) (headSlots (subs D1 ! j) cs) = Ok A
              \<and> t2 = graft (name (props D1)) (withSubs ((subs D1)[j := Some A]) D1) t1)"
  proof (rule add_graft[OF r1(1) D1(1) D1n slot1 ne _ add])
    fix c b s assume "cs = Some c" "Some b \<in> set c" "s \<in> set (traverseInternal b)"
    then show "name (props s) \<noteq> parentStep request" by (rule clean)
  qed
  then obtain A where j: "j < length (subs D1)"
    and A: "createAction E (action request) (headSlots (subs D1 ! j) cs) = Ok A"
    "t2 = graft (name (props D1)) (withSubs ((subs D1)[j := Some A]) D1) t1"
    by blast
  let ?D2 = "withSubs ((subs D1)[j := Some A]) D1"
  have nA: "nextAction A = subs D1 ! j" using createAction_head(2)[OF A(1)] .
  have D2: "?D2 \<in> set (traverseInternal t2)" unfolding A(2) using graft_member[OF D1(1)] by simp
  have "Some A \<in> set (subs ?D2)" using j by (simp add: set_update_memI)
  then have At: "A \<in> set (traverseInternal t2)" using child_in_steps[OF D2] by blast
  have nextS: "name (props D) \<notin> set (optNames (nextAction S))"
    using dnS by (subst (asm) stepNames_next) simp
  have P1k: "subs ?P1 ! k = nextAction S" using k(1) by simp
  have ex: "\<exists>P2. P2 \<in> set (traverseInternal t2) \<and> props P2 = props P \<and> subs P2 ! k = nextAction S
      \<and> length (subs P2) = length (subs P)"
  proof (cases "name (props P) = name (props D)")
    case True
    then have DP: "D = P" using unique_in_tree[OF d D(1) P] by simp
    then have "j \<noteq> k" using neq by simp
    then have "subs ?D2 ! k = nextAction S" using D1(5) DP k(1) j by simp
    moreover have "length (subs ?D2) = length (subs P)" using D1(4) DP by simp
    ultimately show ?thesis using D2 D1(2) DP by (intro exI[of _ ?D2]) simp
  next
    case False
    show ?thesis
    proof (cases "?P1 \<in> set (traverseInternal D1)")
      case True
      have "?P1 \<noteq> D1" using False D1(2) by auto
      then have "?P1 \<in> set (traverseInternal ?D2)"
        using stays_below_insert[OF True _ j nA] by simp
      then have "?P1 \<in> set (traverseInternal t2)" using steps_sub_subset[OF D2] by blast
      then show ?thesis using P1k by (intro exI[of _ ?P1]) simp
    next
      case out: False
      have "\<exists>Q' \<in> set (traverseInternal (graft (name (props D)) ?D2 t1)).
           props Q' = props ?P1 \<and> subs Q' ! k = subs ?P1 ! k
           \<and> length (subs Q') = length (subs ?P1)"
      proof (rule graft_keeps_slot[OF r1(1) r1(6)])
        show "k < length (subs ?P1)" using k(1) by simp
        show "name (props D) \<notin> set (optNames (subs ?P1 ! k))" using nextS P1k by simp
        show "name (props ?P1) \<noteq> name (props D)" using False by simp
        fix R assume "R \<in> set (traverseInternal t1)" "name (props R) = name (props D)"
        then have "R = D1" using unique_in_tree[OF r1(1) _ D1(1)] D1(2) by simp
        then show "?P1 \<notin> set (traverseInternal R)" using out by simp
      qed
      then show ?thesis using A(2) D1(2) P1k by auto
    qed
  qed
  have diff: "subs D1 ! j \<noteq> nextAction S" if nz: "nextAction S \<noteq> None"
  proof
    assume eq: "subs D1 ! j = nextAction S"
    obtain N where N: "nextAction S = Some N" using nz by auto
    have inD: "Some N \<in> set (subs D1)" using eq N j by (metis nth_mem)
    have inP: "Some N \<in> set (subs ?P1)" using P1k N k(1) by (metis length_list_update nth_mem subs_withSubs)
    have "?P1 = D1" using unique_parent[OF r1(1) r1(6) D1(1) inP inD] by simp
    then have same: "name (props P) = name (props D)" using D1(2) by (metis props_withSubs)
    then have DP: "D = P" using unique_in_tree[OF d D(1) P] by simp
    then have jk: "j \<noteq> k" using neq by simp
    have "name (props N) \<in> set (stepNames N)" using names_below[OF traverseInternal_self] .
    moreover have "name (props N) \<notin> set (optNames (subs D1 ! j))"
    proof (rule other_slots_without[OF distinct_below[OF r1(1) D1(1)], of k N])
      show "k < length (subs D1)" using \<open>?P1 = D1\<close> k(1) by (metis length_list_update subs_withSubs)
      show "subs D1 ! k = Some N" using \<open>?P1 = D1\<close> P1k N by simp
      show "name (props N) \<in> set (stepNames N)" using names_below[OF traverseInternal_self] .
      show "j < length (subs D1)" using j .
      show "j \<noteq> k" using jk .
    qed
    ultimately show False using eq N by simp
  qed
  obtain P2 where P2: "P2 \<in> set (traverseInternal t2)" "props P2 = props P"
    "subs P2 ! k = nextAction S" "length (subs P2) = length (subs P)" using ex by blast
  have c: "createAction E (asRequest S) (headSlots (subs D1 ! j) cs) = Ok A"
    using A(1) req(4) by simp
  have g: "t2 = graft (name (props D)) (withSubs ((subs D1)[j := Some A]) D1) t1"
    using A(2) D1(2) by simp
  have n: "name (props D1) = name (props D)" using D1(2) by simp
  show ?thesis
    using r1(1) D1(1) n j c g At P2 diff
    by (intro exI[of _ D1] exI[of _ A] exI[of _ P2]) blast
qed

lemma hollow_subs:
  "hollow nm t =
     withSubs (if emptied nm t
               then replicate (length (subs t) - 1) None @ [map_option (hollow nm) (nextAction t)]
               else map (map_option (hollow nm)) (subs t)) t"
  by (cases t) (auto simp: emptied_def butlast_append stepType_Leaf numeral_2_eq_2)

lemma hollow_head [simp]:
  "props (hollow nm t) = props t" "stepType (hollow nm t) = stepType t"
  by (subst hollow_subs, simp)+

lemma subs_hollow:
  "subs (hollow nm t) =
     (if emptied nm t
      then replicate (length (subs t) - 1) None @ [map_option (hollow nm) (nextAction t)]
      else map (map_option (hollow nm)) (subs t))"
proof -
  have "0 < length (subs t)" by (cases t) simp_all
  then show ?thesis by (subst hollow_subs) simp
qed

lemma nextAction_last: "nextAction t = last (subs t)"
  by (cases t) simp_all

lemma subs_nonempty [simp]: "subs t \<noteq> []"
  by (cases t) simp_all

lemma withSubs_cong:
  "props a = props b \<Longrightarrow> stepType a = stepType b \<Longrightarrow> withSubs xs a = withSubs xs b"
  by (cases a; cases b)
    (auto simp: stepType_Leaf stepType_Leaf[symmetric] elim: stepType.elims)

lemma withSubs_withSubs [simp]: "withSubs xs (withSubs ys a) = withSubs xs a"
  by (cases a) simp_all

lemma emptied_cong:
  "props a = props b \<Longrightarrow> stepType a = stepType b \<Longrightarrow> emptied nm a = emptied nm b"
  by (simp add: emptied_def)

lemma length_subs_cong:
  "stepType a = stepType b \<Longrightarrow> emptied nm a \<Longrightarrow> length (subs a) = length (subs b)"
  by (cases a; cases b) (auto simp: emptied_def stepType_Leaf stepType_Leaf[symmetric])

text \<open>
  A rewrite that, of the steps it meets outside the emptied slots, changes only the
  emptied slots, changes nothing of the tree outside the emptied slots.
\<close>

lemma hollow_transfer:
  assumes A: "\<And>s u. vis (props s) (stepType s) \<Longrightarrow> f s = Ok u
      \<Longrightarrow> (if emptied nm s
           then props u = props s \<and> stepType u = stepType s \<and> nextAction u = nextAction s
           else u = s)"
  shows "everyStep (\<lambda>s. vis (props s) (stepType s)) (hollow nm t)
     \<Longrightarrow> transferStep d f t = Ok r \<Longrightarrow> hollow nm r = hollow nm t"
proof (induction d arbitrary: t r)
  case 0
  then show ?case by simp
next
  case (Suc d)
  from Suc.prems(2) obtain u ss where u: "f t = Ok u"
    "list_all2 (rel_option (\<lambda>a a'. transferStep d f a = Ok a')) (subs u) ss" "r = withSubs ss u"
    unfolding transferStep_eq_Ok by blast
  have len: "length ss = length (subs u)" using u(2) by (simp add: list_all2_lengthD)
  have pos: "0 < length (subs u)" by (cases u) simp_all
  have vt: "vis (props t) (stepType t)" using everyStep_head[OF Suc.prems(1)] by simp
  note At = A[OF vt u(1)]
  have step: "map_option (hollow nm) (ss ! i) = map_option (hollow nm) (subs u ! i)"
    if i: "i < length (subs u)"
      and sub: "\<And>a. subs u ! i = Some a
          \<Longrightarrow> everyStep (\<lambda>s. vis (props s) (stepType s)) (hollow nm a)" for i
  proof (cases "subs u ! i")
    case None
    then show ?thesis using u(2) i by (auto simp: list_all2_conv_all_nth)
  next
    case (Some a)
    have "rel_option (\<lambda>a a'. transferStep d f a = Ok a') (subs u ! i) (ss ! i)"
      using u(2) i by (simp add: list_all2_nthD)
    then obtain a' where a': "ss ! i = Some a'" "transferStep d f a = Ok a'"
      using Some by (cases "ss ! i") auto
    show ?thesis using Suc.IH[OF sub[OF Some] a'(2)] Some a'(1) by simp
  qed
  have r_head: "props r = props u" "stepType r = stepType u" using u(3) by simp_all
  have sr: "subs r = ss" using u(3) len by simp
  have nr: "nextAction r = last ss" using sr by (simp add: nextAction_last)
  show ?case
  proof (cases "emptied nm t")
    case True
    then have ut: "props u = props t" "stepType u = stepType t" "nextAction u = nextAction t"
      using At by simp_all
    have er: "emptied nm r" using True ut r_head by (simp add: emptied_def)
    have lu: "length (subs u) = length (subs t)"
      using length_subs_cong[of u t nm] ut True by (simp add: emptied_def)
    have nu: "subs u ! (length (subs u) - 1) = nextAction t"
      using ut(3) by (simp add: nextAction_last last_conv_nth)
    have "map_option (hollow nm) (ss ! (length (subs u) - 1))
        = map_option (hollow nm) (subs u ! (length (subs u) - 1))"
    proof (rule step)
      show "length (subs u) - 1 < length (subs u)" using pos by simp
      fix a assume "subs u ! (length (subs u) - 1) = Some a"
      then have "nextAction t = Some a" using nu by simp
      then have "Some (hollow nm a) \<in> set (subs (hollow nm t))"
        using True by (simp add: subs_hollow)
      then show "everyStep (\<lambda>s. vis (props s) (stepType s)) (hollow nm a)"
        using everyStep_sub[OF Suc.prems(1)] by blast
    qed
    moreover have "last ss = ss ! (length (subs u) - 1)"
      using len pos by (subst last_conv_nth) auto
    ultimately have "map_option (hollow nm) (nextAction r) = map_option (hollow nm) (nextAction t)"
      using nr nu by simp
    moreover have "length (subs r) = length (subs t)" using sr len lu by simp
    moreover have "withSubs xs r = withSubs xs t" for xs
      using withSubs_cong[of r t xs] r_head ut by simp
    ultimately show ?thesis using er True
      unfolding hollow_subs[of nm r] hollow_subs[of nm t] by simp
  next
    case False
    then have ut: "u = t" using At by simp
    have er: "\<not> emptied nm r" using False ut r_head by (simp add: emptied_def)
    have "map (map_option (hollow nm)) ss = map (map_option (hollow nm)) (subs t)"
    proof (rule nth_equalityI)
      show "length (map (map_option (hollow nm)) ss) = length (map (map_option (hollow nm)) (subs t))"
        using len ut by simp
      fix i assume "i < length (map (map_option (hollow nm)) ss)"
      then have i: "i < length (subs u)" using len by simp
      have "map_option (hollow nm) (ss ! i) = map_option (hollow nm) (subs u ! i)"
      proof (rule step[OF i])
        fix a assume "subs u ! i = Some a"
        then have "Some (hollow nm a) \<in> set (subs (hollow nm t))"
          using False ut i by (force simp: subs_hollow in_set_conv_nth)
        then show "everyStep (\<lambda>s. vis (props s) (stepType s)) (hollow nm a)"
          using everyStep_sub[OF Suc.prems(1)] by blast
      qed
      then show "map (map_option (hollow nm)) ss ! i = map (map_option (hollow nm)) (subs t) ! i"
        using i len ut by simp
    qed
    moreover have "withSubs xs r = withSubs xs t" for xs
      using withSubs_cong[of r t xs] r_head ut by simp
    ultimately show ?thesis using er False sr
      unfolding hollow_subs[of nm r] hollow_subs[of nm t] by simp
  qed
qed

lemma hollow_steps:
  "x \<in> set (traverseInternal (hollow nm t)) \<Longrightarrow> \<exists>y \<in> set (traverseInternal t). x = hollow nm y"
proof (induction t rule: measure_induct_rule[where f = depth])
  case (less t)
  show ?case
  proof (cases "x = hollow nm t")
    case True
    then show ?thesis by (intro bexI[of _ t]) simp_all
  next
    case False
    then obtain b where b: "Some b \<in> set (subs (hollow nm t))" "x \<in> set (traverseInternal b)"
      using below_head less.prems by blast
    have "\<exists>a. Some a \<in> set (subs t) \<and> b = hollow nm a"
    proof (cases "emptied nm t")
      case True
      then have "Some b = map_option (hollow nm) (nextAction t)"
        using b(1) by (auto simp: subs_hollow)
      then obtain a where "nextAction t = Some a" "b = hollow nm a"
        by (cases "nextAction t") auto
      then show ?thesis using next_in_subs by blast
    next
      case False
      then obtain c where c: "c \<in> set (subs t)" "Some b = map_option (hollow nm) c"
        using b(1) by (auto simp: subs_hollow)
      obtain a where "c = Some a" "b = hollow nm a" using c(2) by (cases c) auto
      then show ?thesis using c(1) by blast
    qed
    then obtain a where a: "Some a \<in> set (subs t)" "b = hollow nm a" by blast
    then obtain y where "y \<in> set (traverseInternal a)" "x = hollow nm y"
      using less.IH[OF depth_sub[OF a(1)]] b(2) by blast
    then show ?thesis using traverse_sub[OF a(1)] by blast
  qed
qed

lemma hollow_id:
  "(\<And>s. s \<in> set (traverseInternal t) \<Longrightarrow> emptied nm s \<Longrightarrow> set (butlast (subs s)) \<subseteq> {None})
     \<Longrightarrow> hollow nm t = t"
proof (induction t rule: measure_induct_rule[where f = depth])
  case (less t)
  have sub: "hollow nm a = a" if "Some a \<in> set (subs t)" for a
    using less.IH[OF depth_sub[OF that]] less.prems traverse_sub[OF that] by blast
  have "map_option (hollow nm) c = c" if c: "c \<in> set (subs t)" for c
  proof (cases c)
    case (Some a)
    then show ?thesis using sub c by simp
  qed simp
  then have m: "map (map_option (hollow nm)) (subs t) = subs t" by (simp add: map_idI)
  show ?case
  proof (cases "emptied nm t")
    case True
    then have "set (butlast (subs t)) \<subseteq> {None}" using less.prems[of t] by simp
    then have "butlast (subs t) = replicate (length (subs t) - 1) None"
      by (intro replicate_eqI) auto
    moreover have "map_option (hollow nm) (nextAction t) = nextAction t"
      using sub next_in_subs[of t] by (cases "nextAction t") simp_all
    ultimately have "replicate (length (subs t) - 1) None @ [map_option (hollow nm) (nextAction t)]
        = subs t"
      using subs_butlast_next[of t] by simp
    then show ?thesis using True unfolding hollow_subs[of nm t] by simp
  next
    case False
    then show ?thesis using m unfolding hollow_subs[of nm t] by simp
  qed
qed

lemma hollow_without:
  "nm \<notin> set (stepNames (hollow nm x)) \<Longrightarrow> hollow nm x = x"
proof (induction x rule: measure_induct_rule[where f = depth])
  case (less x)
  have ne: "\<not> emptied nm x"
    using less.prems name_in_stepNames[OF traverseInternal_self, of "hollow nm x"]
    by (auto simp: emptied_def)
  have "map_option (hollow nm) c = c" if "c \<in> set (subs x)" for c
  proof (cases c)
    case (Some a)
    then have a: "Some a \<in> set (subs x)" using that by simp
    then have "Some (hollow nm a) \<in> set (subs (hollow nm x))" using ne by (force simp: subs_hollow)
    then have "set (stepNames (hollow nm a)) \<subseteq> set (stepNames (hollow nm x))"
      using traverse_sub[of "hollow nm a" "hollow nm x"] by (auto simp: stepNames_def)
    then show ?thesis using less.IH[OF depth_sub[OF a]] less.prems Some by auto
  qed simp
  then have "map (map_option (hollow nm)) (subs x) = subs x" by (simp add: map_idI)
  then show ?case using ne unfolding hollow_subs[of nm x] by simp
qed

lemma hollow_slot_back:
  assumes "map_option (hollow nm) c = c'" and "nm \<notin> set (optNames c')"
  shows "c = c'"
proof (cases c)
  case (Some a)
  then have "c' = Some (hollow nm a)" using assms(1) by auto
  then show ?thesis using hollow_without[of nm a] assms(2) Some by simp
qed (use assms(1) in auto)

lemma add_into_emptied:
  assumes vis: "name (props s) \<in> V \<and> (name (props s) = nm \<longrightarrow> stepType s = T)"
    and par: "parentStep request \<in> V
              \<Longrightarrow> parentStep request = nm \<and> structural T (stepLocationRelativeToParent request)"
    and add: "addActionStep E request cs s = Ok u"
  shows "if emptied nm s
         then props u = props s \<and> stepType u = stepType s \<and> nextAction u = nextAction s
         else u = s"
proof (cases "name (props s) = parentStep request")
  case False
  then show ?thesis using add by (simp add: addActionStep_def)
next
  case True
  then have nm: "name (props s) = nm" "stepType s = T"
    and st: "structural T (stepLocationRelativeToParent request)"
    using vis par by auto
  have u: "addToParent E request cs s (stepLocationRelativeToParent request) = Ok u"
    using add True by (simp add: addActionStep_def)
  show ?thesis
  proof (cases s)
    case (Leaf p k n)
    have "stepType s \<noteq> Action LOOP_ON_ITEMS" "stepType s \<noteq> Action BRANCH"
      using stepType_Leaf Leaf by simp_all
    then show ?thesis using st nm(2) by (simp add: structural_def)
  next
    case (Branch p a b n)
    then show ?thesis using st nm u
      by (auto simp: structural_def emptied_def rbind_eq_Ok)
  next
    case (Loop p b n)
    then show ?thesis using st nm u
      by (auto simp: structural_def emptied_def rbind_eq_Ok)
  next
    case (Router p c n)
    then show ?thesis using st nm(2) by (auto simp: structural_def)
  qed
qed

lemma upgrade_other: "name (props s) \<noteq> Y \<Longrightarrow> upgradePiece E s Y = Ok s"
  by (simp add: upgradePiece_def)

text \<open>
  An import operation that adds inside the emptied slots changes nothing outside them.
  \<open>V\<close> holds the names of the steps outside.
\<close>

lemma import_operation_hollow:
  assumes vis: "everyStep (\<lambda>s. name (props s) \<in> V \<and> (name (props s) = nm \<longrightarrow> stepType s = T))
                  (hollow nm (trigger fv))"
    and par: "parentStep request \<in> V
              \<Longrightarrow> parentStep request = nm \<and> structural T (stepLocationRelativeToParent request)"
    and act: "actionName (action request) \<notin> V"
    and ap: "applyImportOperation d E fv request = Ok fv'"
  shows "hollow nm (trigger fv') = hollow nm (trigger fv)"
proof -
  obtain r1 r2 where r: "transferStep d (addActionStep E request None) (trigger fv) = Ok r1"
    "transferStep d (\<lambda>st. upgradePiece E st (actionName (action request))) r1 = Ok r2"
    "trigger fv' = r2"
    using ap
    by (auto simp: applyImportOperation_def addActionOperation_def addAction_def
        transferFlow_def rbind_eq_Ok)
  have h1: "hollow nm r1 = hollow nm (trigger fv)"
  proof (rule hollow_transfer[where vis = "\<lambda>p ty. name p \<in> V \<and> (name p = nm \<longrightarrow> ty = T)",
        OF _ vis r(1)])
    fix s u
    assume "name (props s) \<in> V \<and> (name (props s) = nm \<longrightarrow> stepType s = T)"
      "addActionStep E request None s = Ok u"
    then show "if emptied nm s
         then props u = props s \<and> stepType u = stepType s \<and> nextAction u = nextAction s
         else u = s"
      using add_into_emptied[of s V nm T request E None u] par by blast
  qed
  have "hollow nm r2 = hollow nm r1"
  proof (rule hollow_transfer[where vis = "\<lambda>p ty. name p \<in> V \<and> (name p = nm \<longrightarrow> ty = T)",
        OF _ _ r(2)])
    show "everyStep (\<lambda>s. name (props s) \<in> V \<and> (name (props s) = nm \<longrightarrow> stepType s = T))
            (hollow nm r1)" using vis h1 by simp
    fix s u
    assume v: "name (props s) \<in> V \<and> (name (props s) = nm \<longrightarrow> stepType s = T)"
      and up: "upgradePiece E s (actionName (action request)) = Ok u"
    have "name (props s) \<noteq> actionName (action request)" using v act by auto
    then have "upgradePiece E s (actionName (action request)) = Ok s" by (rule upgrade_other)
    then have "u = s" using up by simp
    then show "if emptied nm s
         then props u = props s \<and> stepType u = stepType s \<and> nextAction u = nextAction s
         else u = s" by simp
  qed
  then show ?thesis using h1 r(3) by simp
qed

lemma import_operations_hollow:
  "foldResult (applyImportOperation d E) fv ops = Ok g
     \<Longrightarrow> everyStep (\<lambda>s. name (props s) \<in> V \<and> (name (props s) = nm \<longrightarrow> stepType s = T))
           (hollow nm (trigger fv))
     \<Longrightarrow> (\<And>request. request \<in> set ops
           \<Longrightarrow> (parentStep request \<in> V
                 \<longrightarrow> parentStep request = nm
                      \<and> structural T (stepLocationRelativeToParent request))
               \<and> actionName (action request) \<notin> V)
     \<Longrightarrow> hollow nm (trigger g) = hollow nm (trigger fv)"
proof (induction ops arbitrary: fv)
  case Nil
  then show ?case by simp
next
  case (Cons request ops)
  from Cons.prems(1) obtain fv' where fv': "applyImportOperation d E fv request = Ok fv'"
    "foldResult (applyImportOperation d E) fv' ops = Ok g"
    by (auto simp: rbind_eq_Ok)
  have h: "hollow nm (trigger fv') = hollow nm (trigger fv)"
    using import_operation_hollow[OF Cons.prems(2) _ _ fv'(1)] Cons.prems(3)[of request] by simp
  have "hollow nm (trigger g) = hollow nm (trigger fv')"
    using Cons.IH[OF fv'(2)] Cons.prems(2,3) h by simp
  then show ?case using h by simp
qed

lemma props_removeAnySubsequentAction [simp]: "props (removeAnySubsequentAction a) = props a"
  by (cases a) simp_all

lemma importRequest_fields [simp]:
  "parentStep (importRequest parent l i b a) = parent"
  "stepLocationRelativeToParent (importRequest parent l i b a) = l"
  "actionName (action (importRequest parent l i b a)) = name (props a)"
  by (simp_all add: importRequest_def asRequest_def)

lemma import_operation_cases:
  assumes "request \<in> set (getImportOperations x)"
  shows "(\<exists>a. nextAction x = Some a \<and> parentStep request = name (props x)
              \<and> actionName (action request) = name (props a))
       \<or> (\<exists>a. Some a \<in> set (butlast (subs x)) \<and> parentStep request = name (props x)
              \<and> actionName (action request) = name (props a)
              \<and> (stepType x = Action ROUTER
                  \<or> structural (stepType x) (stepLocationRelativeToParent request)))
       \<or> (\<exists>a. Some a \<in> set (subs x) \<and> request \<in> set (getImportOperations a))"
proof (cases x)
  case (Leaf p k n)
  then show ?thesis using assms by (auto split: option.splits)
next
  case (Branch p s f n)
  then show ?thesis using assms by (auto simp: structural_def split: option.splits)
next
  case (Loop p b n)
  then show ?thesis using assms by (auto simp: structural_def split: option.splits)
next
  case (Router p cs n)
  have "request \<in> set (case n of None \<Rightarrow> [] | Some a \<Rightarrow> [importRequest (name p) None None None a])
      \<or> (\<exists>i c. (i, c) \<in> set (zip [0..<length cs] cs)
            \<and> request \<in> set (case c of None \<Rightarrow> []
                 | Some a \<Rightarrow> importRequest (name p) (Some INSIDE_BRANCH) (Some (int i))
                              (Some (''Branch '' @ showNat i)) a # getImportOperations a))
      \<or> request \<in> set (case n of None \<Rightarrow> [] | Some a \<Rightarrow> getImportOperations a)"
  proof -
    have "request \<in> set (getImportOperations (Router p cs n))" using assms unfolding Router .
    then consider
        "request \<in> set (case n of None \<Rightarrow> [] | Some a \<Rightarrow> [importRequest (name p) None None None a])"
      | y where "y \<in> set (zip [0..<length cs] cs)"
          "request \<in> set (case y of (i, c) \<Rightarrow> case c of None \<Rightarrow> []
                 | Some a \<Rightarrow> importRequest (name p) (Some INSIDE_BRANCH) (Some (int i))
                              (Some (''Branch '' @ showNat i)) a # getImportOperations a)"
      | "request \<in> set (case n of None \<Rightarrow> [] | Some a \<Rightarrow> getImportOperations a)"
      unfolding getImportOperations.simps set_append set_concat Un_iff UN_iff set_map
      by blast
    then show ?thesis
    proof cases
      case 2
      obtain i c where "y = (i, c)" by (cases y)
      then show ?thesis using 2 by (simp only: prod.case) blast
    qed blast+
  qed
  then show ?thesis
  proof (elim disjE exE conjE)
    assume "request \<in> set (case n of None \<Rightarrow> [] | Some a \<Rightarrow> [importRequest (name p) None None None a])"
    then show ?thesis using Router by (auto split: option.splits)
  next
    fix i c
    assume ic: "(i, c) \<in> set (zip [0..<length cs] cs)"
      and r: "request \<in> set (case c of None \<Rightarrow> []
                 | Some a \<Rightarrow> importRequest (name p) (Some INSIDE_BRANCH) (Some (int i))
                              (Some (''Branch '' @ showNat i)) a # getImportOperations a)"
    have "c \<in> set cs" using ic by (rule set_zip_rightD)
    then show ?thesis using r Router by (cases c) (auto simp: butlast_append)
  next
    assume "request \<in> set (case n of None \<Rightarrow> [] | Some a \<Rightarrow> getImportOperations a)"
    then show ?thesis using Router by (auto split: option.splits)
  qed
qed

lemma sub_names: "Some a \<in> set (subs x) \<Longrightarrow> set (stepNames a) \<subseteq> set (stepNames x)"
  using traverse_sub[of a x] by (auto simp: stepNames_def)

text \<open>
  The import operations of a tree with distinct names: the parents and the actions are
  steps of the tree, no action is its head, and an operation whose parent is the head (of
  a loop or branch with no \<^verbatim>\<open>nextAction\<close>) adds into a slot of the head.
\<close>

lemma import_operations_names:
  "distinct (stepNames x) \<Longrightarrow> request \<in> set (getImportOperations x)
     \<Longrightarrow> parentStep request \<in> set (stepNames x)
         \<and> actionName (action request) \<in> set (stepNames x)
         \<and> actionName (action request) \<noteq> name (props x)
         \<and> (parentStep request = name (props x) \<longrightarrow> nextAction x = None
              \<longrightarrow> stepType x \<noteq> Action ROUTER
              \<longrightarrow> structural (stepType x) (stepLocationRelativeToParent request))"
proof (induction x rule: measure_induct_rule[where f = depth])
  case (less x)
  have self: "name (props x) \<in> set (stepNames x)"
    by (rule name_in_stepNames[OF traverseInternal_self])
  have child: "name (props a) \<in> set (stepNames x) \<and> name (props a) \<noteq> name (props x)"
    if "Some a \<in> set (subs x)" for a
    using sub_names[OF that] name_in_stepNames[OF traverseInternal_self, of a]
      head_name_not_below[OF less.prems(1) that] by auto
  from import_operation_cases[OF less.prems(2)] consider
      (nx) a where "nextAction x = Some a" "parentStep request = name (props x)"
        "actionName (action request) = name (props a)"
    | (slot) a where "Some a \<in> set (butlast (subs x))" "parentStep request = name (props x)"
        "actionName (action request) = name (props a)"
        "stepType x = Action ROUTER
         \<or> structural (stepType x) (stepLocationRelativeToParent request)"
    | (below) a where "Some a \<in> set (subs x)" "request \<in> set (getImportOperations a)"
    by blast
  then show ?case
  proof cases
    case nx
    then show ?thesis using self child[OF next_in_subs] by simp
  next
    case slot
    have "Some a \<in> set (subs x)" using slot(1) by (rule in_set_butlastD)
    then show ?thesis using self child slot(2,3,4) by auto
  next
    case below
    have ih: "parentStep request \<in> set (stepNames a)"
      "actionName (action request) \<in> set (stepNames a)"
      using less.IH[OF depth_sub[OF below(1)] distinct_sub[OF less.prems(1) below(1)] below(2)]
      by simp_all
    have "name (props x) \<notin> set (stepNames a)"
      using head_name_not_below[OF less.prems(1) below(1)] .
    then show ?thesis using ih sub_names[OF below(1)] by auto
  qed
qed

lemma concat_none: "set xs \<subseteq> {None} \<Longrightarrow> concat (map optNames xs) = []"
  by (induction xs) auto

text \<open>The names after an action with empty slots was added: one more.\<close>

lemma add_names:
  assumes d1: "distinct (stepNames t1)" and D1: "D1 \<in> set (traverseInternal t1)"
    and j: "j < length (subs D1)" and nA: "nextAction A = subs D1 ! j"
    and empty: "set (butlast (subs A)) \<subseteq> {None}"
  shows "\<exists>U W. stepNames t1 = U @ W
           \<and> stepNames (graft (name (props D1)) (withSubs ((subs D1)[j := Some A]) D1) t1)
               = U @ name (props A) # W"
proof -
  let ?D2 = "withSubs ((subs D1)[j := Some A]) D1"
  obtain pre post where pp: "stepNames t1 = pre @ stepNames D1 @ post"
    "stepNames (graft (name (props D1)) ?D2 t1) = pre @ stepNames ?D2 @ post"
    using graft_names[OF d1 D1] by blast
  have sA: "stepNames A = name (props A) # optNames (subs D1 ! j)"
    using stepNames_next[of A] concat_none[OF empty] nA by simp
  let ?U = "pre @ name (props D1) # concat (map optNames (take j (subs D1)))"
  let ?W = "optNames (subs D1 ! j) @ concat (map optNames (drop (Suc j) (subs D1))) @ post"
  have "stepNames t1 = ?U @ ?W" using pp(1) stepNames_split[OF j] by simp
  moreover have "stepNames (graft (name (props D1)) ?D2 t1) = ?U @ name (props A) # ?W"
    using pp(2) stepNames_update[OF j, of "Some A"] sA by simp
  ultimately show ?thesis by blast
qed

lemma nextAction_hollow: "nextAction (hollow nm y) = map_option (hollow nm) (nextAction y)"
  by (cases y) simp_all

lemma hollow_find_next:
  assumes "A \<in> set (traverseInternal (hollow nm t3))" and "nm \<notin> set (optNames (nextAction A))"
  shows "\<exists>y \<in> set (traverseInternal t3). props y = props A \<and> nextAction y = nextAction A"
proof -
  obtain y where y: "y \<in> set (traverseInternal t3)" "A = hollow nm y"
    using hollow_steps[OF assms(1)] by blast
  have "map_option (hollow nm) (nextAction y) = nextAction A"
    using y(2) by (simp add: nextAction_hollow)
  then have "nextAction y = nextAction A" using hollow_slot_back assms(2) by blast
  then show ?thesis using y by auto
qed

lemma hollow_find_slot:
  assumes "P2 \<in> set (traverseInternal (hollow nm t3))" and "name (props P2) \<noteq> nm"
    and "k < length (subs P2)" and "nm \<notin> set (optNames (subs P2 ! k))"
  shows "\<exists>y \<in> set (traverseInternal t3). props y = props P2 \<and> subs y ! k = subs P2 ! k"
proof -
  obtain y where y: "y \<in> set (traverseInternal t3)" "P2 = hollow nm y"
    using hollow_steps[OF assms(1)] by blast
  have ne: "\<not> emptied nm y" using assms(2) y(2) by (simp add: emptied_def)
  then have s: "subs P2 = map (map_option (hollow nm)) (subs y)" using y(2) by (simp add: subs_hollow)
  then have "k < length (subs y)" using assms(3) by simp
  then have "map_option (hollow nm) (subs y ! k) = subs P2 ! k" using s by simp
  then have "subs y ! k = subs P2 ! k" using hollow_slot_back assms(4) by blast
  then show ?thesis using y by auto
qed

text \<open>
  The replay of the operations of a moved loop or branch: outside the slots of the copy
  the tree stays as it was after the copy was added.
\<close>

lemma move_replay:
  assumes dS: "distinct (stepNames S)"
    and kind: "stepType S = Action LOOP_ON_ITEMS \<or> stepType S = Action BRANCH"
    and d2: "distinct (stepNames (trigger fv2))"
    and out: "set (concat (map optNames (butlast (subs S)))) \<inter> set (stepNames (trigger fv2)) = {}"
    and A: "A \<in> set (traverseInternal (trigger fv2))" "name (props A) = name (props S)"
      "stepType A = stepType S" "set (butlast (subs A)) \<subseteq> {None}"
    and fold: "foldResult (applyImportOperation d E) fv2
                 (getImportOperations (setNextAction None S)) = Ok g0"
  shows "hollow (name (props S)) (trigger g0) = trigger fv2"
proof -
  let ?nm = "name (props S)"
  let ?M = "concat (map optNames (butlast (subs S)))"
  let ?x = "setNextAction None S"
  let ?V = "set (stepNames (trigger fv2))"
  have only: "s = A" if "s \<in> set (traverseInternal (trigger fv2))" "name (props s) = ?nm" for s
    using unique_in_tree[OF d2 that(1) A(1)] that(2) A(2) by simp
  have hid: "hollow ?nm (trigger fv2) = trigger fv2"
  proof (rule hollow_id)
    fix s assume "s \<in> set (traverseInternal (trigger fv2))" "emptied ?nm s"
    then have "s = A" using only by (simp add: emptied_def)
    then show "set (butlast (subs s)) \<subseteq> {None}" using A(4) by simp
  qed
  have namesx: "stepNames ?x = ?nm # ?M"
    by (subst stepNames_next) (simp add: subs_setNextAction)
  have dx: "distinct (stepNames ?x)"
    using dS unfolding namesx by (subst (asm) stepNames_next) simp
  have vis: "everyStep (\<lambda>s. name (props s) \<in> ?V \<and> (name (props s) = ?nm \<longrightarrow> stepType s = stepType S))
               (hollow ?nm (trigger fv2))"
    unfolding hid everyStep_def list_all_iff
    using only A(3) name_in_stepNames by blast
  have "hollow ?nm (trigger g0) = hollow ?nm (trigger fv2)"
  proof (rule import_operations_hollow[OF fold vis])
    fix request assume r: "request \<in> set (getImportOperations ?x)"
    note n = import_operations_names[OF dx r]
    have act: "actionName (action request) \<in> set ?M" using n unfolding namesx by auto
    have "parentStep request = ?nm \<and> structural (stepType S) (stepLocationRelativeToParent request)"
      if "parentStep request \<in> ?V"
    proof -
      have "parentStep request \<notin> set ?M" using that out by auto
      then have "parentStep request = ?nm" using n unfolding namesx by auto
      moreover have "stepType ?x \<noteq> Action ROUTER" using kind by auto
      ultimately show ?thesis using n by simp
    qed
    then show "(parentStep request \<in> ?V
                 \<longrightarrow> parentStep request = ?nm
                      \<and> structural (stepType S) (stepLocationRelativeToParent request))
               \<and> actionName (action request) \<notin> ?V"
      using act out by auto
  qed
  then show ?thesis using hid by simp
qed

lemma find_by_name:
  assumes "distinct (stepNames t)" and "s \<in> set (traverseInternal t)"
  shows "find (\<lambda>x. name (props x) = name (props s)) (traverseInternal t) = Some s"
proof (rule find_Some_unique)
  show "s \<in> set (traverseInternal t)" using assms(2) .
  show "name (props s) = name (props s)" by simp
  fix y assume "y \<in> set (traverseInternal t)" "name (props y) = name (props s)"
  then show "y = s" using unique_in_tree[OF assms(1) _ assms(2)] by blast
qed

lemma slot_names: "j < length (subs D1) \<Longrightarrow> set (optNames (subs D1 ! j)) \<subseteq> set (stepNames D1)"
  by (subst stepNames_split[of j]) auto

lemma below_names:
  "D1 \<in> set (traverseInternal t1) \<Longrightarrow> set (stepNames D1) \<subseteq> set (stepNames t1)"
  using steps_sub_subset[of D1 t1] by (auto simp: stepNames_def)

section \<open>The claims\<close>

text \<open>
  What \<^verbatim>\<open>duplicateStep\<close> does for a name no step has:
  \<^verbatim>\<open>JSON.parse(JSON.stringify(undefined))\<close> throws a
  \<^verbatim>\<open>SyntaxError\<close> before the function's own check
  \<^verbatim>\<open>if (!clonedStep) throw new Error(...)\<close> is reached.
\<close>

theorem duplicate_missing_step_throws:
  assumes "getStep f stepName = None"
  shows "flowHelper_apply d E f (DUPLICATE_ACTION stepName) = Throw SyntaxError
       \<and> \<not> throwsFlowOperationInvalid (flowHelper_apply d E f (DUPLICATE_ACTION stepName))"
  using assms by (simp add: flowHelper_apply_def duplicateStep_def throwsFlowOperationInvalid_def)

theorem duplicate_missing_step_witness:
  "getStep loopHeadFlow ''step_9'' = None
   \<and> flowHelper_apply 3 exEnv loopHeadFlow (DUPLICATE_ACTION ''step_9'') = Throw SyntaxError"
proof -
  have h: "getStep loopHeadFlow ''step_9'' = None"
    by (simp add: getStep_def getAllSteps_def loopHeadFlow_def exFlow_def exProps_def
        exRouterProps_def)
  show ?thesis using h duplicate_missing_step_throws [OF h, of 3 exEnv] by simp
qed

text \<open>
  C8 is right and the code does not meet it. Duplicating the missing
  \<^verbatim>\<open>step_9\<close> of a flow with a trigger and a router throws the
  \<^verbatim>\<open>SyntaxError\<close> of \<^verbatim>\<open>JSON.parse\<close>, which carries no
  step name, and no \<^verbatim>\<open>FLOW_OPERATION_INVALID\<close>: the check of
  \<^verbatim>\<open>duplicateStep\<close> for a missing step stands after the statements that
  use the step, where \<^verbatim>\<open>duplicateRouterChild\<close> has it before them.
\<close>

theorem duplicate_missing_step_counterexample:
  "flowHelper_apply 3 exEnv routerFlow (DUPLICATE_ACTION ''step_9'') = Throw SyntaxError
   \<and> \<not> throwsFlowOperationInvalid
       (flowHelper_apply 3 exEnv routerFlow (DUPLICATE_ACTION ''step_9''))"
  by code_simp

text \<open>
  C10. \<^verbatim>\<open>ADD_BRANCH\<close> and \<^verbatim>\<open>DELETE_BRANCH\<close> change a router
  only where it is the \<^verbatim>\<open>nextAction\<close> of a step: when no step of the flow
  has a router of the name as its \<^verbatim>\<open>nextAction\<close> (the router is the head
  of a loop body, of a branch slot or of a router child slot), \<^verbatim>\<open>apply\<close>
  returns the flow as it was, with no error; only the validity of the flow is computed
  again.
\<close>

theorem branch_ops_skip_routers_that_are_not_next:
  assumes "\<forall>s \<in> set (getAllSteps (trigger f)). \<not> nextRouterNamed N s"
    and "depth (trigger f) \<le> d"
  shows "flowHelper_apply d E f (ADD_BRANCH N i) = Ok (f\<lparr>flowValid := isValid f\<rparr>)
       \<and> flowHelper_apply d E f (DELETE_BRANCH N i) = Ok (f\<lparr>flowValid := isValid f\<rparr>)"
proof -
  have "transferFlow d f (\<lambda>st. Ok (addBranchStep N i st)) = Ok f"
    using assms by (intro transferFlow_id) (simp_all add: addBranchStep_id)
  moreover have "transferFlow d f (\<lambda>st. Ok (deleteBranchStep N i st)) = Ok f"
    using assms by (intro transferFlow_id) (simp_all add: deleteBranchStep_id)
  ultimately show ?thesis by (simp add: flowHelper_apply_def)
qed

theorem branch_ops_skip_witness:
  "flowHelper_apply 3 exEnv loopHeadFlow (ADD_BRANCH ''step_2'' 1) = Ok loopHeadFlow
   \<and> flowHelper_apply 3 exEnv loopHeadFlow (DELETE_BRANCH ''step_2'' 1) = Ok loopHeadFlow
   \<and> getStep loopHeadFlow ''step_2''
       = Some (Router (exRouterProps ''step_2'' [''Branch 1'', ''Otherwise'']) [None, None] None)"
proof -
  have h1: "\<forall>s \<in> set (getAllSteps (trigger loopHeadFlow)). \<not> nextRouterNamed ''step_2'' s"
    by (simp add: loopHeadFlow_def exFlow_def getAllSteps_def nextRouterNamed_def)
  have h2: "depth (trigger loopHeadFlow) \<le> 3"
    by (simp add: loopHeadFlow_def exFlow_def)
  have v: "loopHeadFlow\<lparr>flowValid := isValid loopHeadFlow\<rparr> = loopHeadFlow"
    by (simp add: loopHeadFlow_def exFlow_def isValid_def getAllSteps_def exProps_def exRouterProps_def)
  have g: "getStep loopHeadFlow ''step_2''
       = Some (Router (exRouterProps ''step_2'' [''Branch 1'', ''Otherwise'']) [None, None] None)"
    by (simp add: loopHeadFlow_def exFlow_def getStep_def getAllSteps_def exProps_def exRouterProps_def)
  show ?thesis
    using branch_ops_skip_routers_that_are_not_next [OF h1 h2, of exEnv 1] v g by simp
qed



text \<open>
  C6. \<^verbatim>\<open>normalize\<close> is idempotent: normalizing the flow
  \<^verbatim>\<open>normalize\<close> returned returns that flow again, and where the first
  call throws (\<^verbatim>\<open>semver.lt\<close> on a legacy piece with no version) so does
  the composition. By \<open>normalize_returns\<close> the first call returns whenever the fuel
  reaches the depth of the flow and the rewrite of no step throws.
\<close>

theorem normalize_idempotent:
  "rbind (normalize d E f) (\<lambda>g. normalize d E g) = normalize d E f"
proof (cases "normalize d E f")
  case (Ok g)
  then obtain r where r: "transferStep d (normalizeStep E) (trigger f) = Ok r"
    "g = f\<lparr>trigger := r\<rparr>"
    by (auto simp: normalize_def transferFlow_def rbind_eq_Ok)
  have "transferStep d (normalizeStep E) r = Ok r"
    using normalized_steps_are_fixed[OF r(1)] transferStep_depth[OF r(1)]
    by (intro transferStep_id) auto
  then have "normalize d E g = Ok g" using r(2) by (simp add: normalize_def transferFlow_def)
  then show ?thesis using Ok by simp
qed simp_all

theorem normalize_idempotent_witness:
  "normalize 4 exEnv mailFlow = Ok normalizedMailFlow
   \<and> normalize 4 exEnv normalizedMailFlow = Ok normalizedMailFlow"
proof -
  have h: "normalize 4 exEnv mailFlow = Ok normalizedMailFlow" by code_simp
  show ?thesis using h normalize_idempotent [of 4 exEnv mailFlow] by simp
qed

text \<open>
  C5, as the code has it. In the flow \<^verbatim>\<open>normalize\<close> returns, the
  \<^verbatim>\<open>auth\<close> of every piece step is absent or falsy (the empty string
  where the step had a truthy one: a step with no \<^verbatim>\<open>auth\<close> is given
  none), and its version is a legacy one or starts with \<open>^\<close> or \<open>~\<close>: the
  version of the step it comes from when that one is legacy or pinned already, and else
  that version after \<open>~\<close> when it is a valid version below 1.0.0, after \<open>^\<close>
  when it is not.
\<close>

theorem normalize_piece_steps:
  assumes "normalize d E f = Ok g"
    and "s \<in> set (getAllSteps (trigger g))"
    and "isPieceStep s"
  shows "(case getAuth (settings (props s)) of None \<Rightarrow> True | Some a \<Rightarrow> \<not> truthy a)
       \<and> (isLegacyApp E (pieceName (settings (props s))) (pieceVersion (settings (props s))) = Ok True
          \<or> startsWith (CHR ''^'') (pieceVersion (settings (props s)))
          \<or> startsWith (CHR ''~'') (pieceVersion (settings (props s))))
       \<and> (\<exists>s0 \<in> set (getAllSteps (trigger f)).
            isPieceStep s0 \<and> name (props s0) = name (props s)
          \<and> getAuth (settings (props s)) =
              (case getAuth (settings (props s0)) of
                 Some a \<Rightarrow> if truthy a then Some (JStr []) else Some a
               | None \<Rightarrow> None)
          \<and> pieceVersion (settings (props s)) =
              (if isLegacyApp E (pieceName (settings (props s0))) (pieceVersion (settings (props s0)))
                    = Ok True
                  \<or> startsWith (CHR ''^'') (pieceVersion (settings (props s0)))
                  \<or> startsWith (CHR ''~'') (pieceVersion (settings (props s0)))
               then pieceVersion (settings (props s0))
               else if semverValid E (pieceVersion (settings (props s0)))
                       \<and> semverLt E (pieceVersion (settings (props s0))) ''1.0.0'' = Some True
               then CHR ''~'' # pieceVersion (settings (props s0))
               else CHR ''^'' # pieceVersion (settings (props s0))))"
proof -
  from assms(1) obtain r where r: "transferStep d (normalizeStep E) (trigger f) = Ok r"
    "g = f\<lparr>trigger := r\<rparr>"
    by (auto simp: normalize_def transferFlow_def rbind_eq_Ok)
  have "s \<in> set (traverseInternal r)" using assms(2) r(2) by (simp add: getAllSteps_def)
  then obtain s0 where s0: "s0 \<in> set (traverseInternal (trigger f))"
    "normalizeProps E (stepType s0) (props s0) = Ok (props s)" "stepType s = stepType s0"
    using transfer_props_only[of "normalizeStep E" "normalizeProps E", OF normalizeStep_props r(1)]
    by blast
  have piece0: "isPieceStep s0" using assms(3) s0(3) by (simp add: isPieceStep_def)
  then have up: "upgradeProps E (wipeProps True (props s0)) = Ok (props s)"
    using s0(2) by (simp add: normalizeProps_def isPieceStep_def)
  note shape = upgradeProps_Ok[OF up]
  have auth: "getAuth (settings (props s)) =
      (case getAuth (settings (props s0)) of
         Some a \<Rightarrow> if truthy a then Some (JStr []) else Some a | None \<Rightarrow> None)"
    by (subst shape) (simp add: getAuth_wipeProps split: option.splits)
  have ver: "pieceVersion (settings (props s)) =
      (if isLegacyApp E (pieceName (settings (props s0))) (pieceVersion (settings (props s0)))
            = Ok True
          \<or> startsWith (CHR ''^'') (pieceVersion (settings (props s0)))
          \<or> startsWith (CHR ''~'') (pieceVersion (settings (props s0)))
       then pieceVersion (settings (props s0))
       else if semverValid E (pieceVersion (settings (props s0)))
               \<and> semverLt E (pieceVersion (settings (props s0))) ''1.0.0'' = Some True
       then CHR ''~'' # pieceVersion (settings (props s0))
       else CHR ''^'' # pieceVersion (settings (props s0)))"
    by (subst shape) simp
  have nm: "name (props s0) = name (props s)" by (subst shape) simp
  have falsy: "(case getAuth (settings (props s)) of None \<Rightarrow> True | Some a \<Rightarrow> \<not> truthy a)"
    unfolding auth by (auto split: option.splits)
  show ?thesis
    using falsy upgradeProps_legacy_or_pinned[OF up] s0(1) piece0 nm auth ver
    unfolding getAllSteps_def by blast
qed

theorem normalize_piece_steps_witness:
  "normalize 4 exEnv mailFlow = Ok normalizedMailFlow
   \<and> getStep normalizedMailFlow ''step_1''
       = Some (Leaf (pieceProps ''step_1'' ''@activepieces/piece-slack'' ''~0.4.2''
                 (Some (JObj [(''auth'', JStr []), (''text'', JStr ''hello'')])))
               LEAF_PIECE (nextAction (the (nextAction (trigger normalizedMailFlow)))))
   \<and> \<not> truthy (JStr [])"
proof -
  let ?s = "Leaf (pieceProps ''step_1'' ''@activepieces/piece-slack'' ''~0.4.2''
                 (Some (JObj [(''auth'', JStr []), (''text'', JStr ''hello'')])))
               LEAF_PIECE (nextAction (the (nextAction (trigger normalizedMailFlow))))"
  have h1: "normalize 4 exEnv mailFlow = Ok normalizedMailFlow" by code_simp
  have h2: "?s \<in> set (getAllSteps (trigger normalizedMailFlow))"
    by (simp add: normalizedMailFlow_def exFlow_def getAllSteps_def)
  have h3: "isPieceStep ?s" by (simp add: isPieceStep_def)
  have g: "getStep normalizedMailFlow ''step_1'' = Some ?s"
    by (simp add: getStep_def getAllSteps_def normalizedMailFlow_def exFlow_def pieceProps_def)
  show ?thesis using normalize_piece_steps [OF h1 h2 h3] h1 g by simp
qed

text \<open>
  C5 as stated fails: \<^verbatim>\<open>step_2\<close> of the example has no
  \<^verbatim>\<open>auth\<close>, and after \<^verbatim>\<open>normalize\<close> it still has none,
  not the empty string.
\<close>

theorem normalize_auth_counterexample:
  "normalize 4 exEnv mailFlow = Ok normalizedMailFlow
   \<and> map (\<lambda>s. getAuth (settings (props s))) (getAllSteps (trigger normalizedMailFlow))
       = [Some (JStr []), Some (JStr []), None, None]
   \<and> map isPieceStep (getAllSteps (trigger normalizedMailFlow)) = [True, True, True, True]"
  by code_simp

text \<open>
  C7, as the code has it. In a flow with distinct step names, an
  \<^verbatim>\<open>ADD_ACTION\<close> whose parent step is a loop, a branch or a router and
  whose location is one that kind does not accept (loop: any but
  \<^verbatim>\<open>INSIDE_LOOP\<close> and \<^verbatim>\<open>AFTER\<close>; branch: any but
  \<^verbatim>\<open>INSIDE_TRUE_BRANCH\<close>, \<^verbatim>\<open>INSIDE_FALSE_BRANCH\<close> and
  \<^verbatim>\<open>AFTER\<close>; router: any but \<^verbatim>\<open>AFTER\<close> and
  \<^verbatim>\<open>INSIDE_BRANCH\<close> with a branch index) makes \<^verbatim>\<open>apply\<close>
  throw \<^verbatim>\<open>FLOW_OPERATION_INVALID\<close>. A parent that is a plain action or a
  trigger rejects no location: the rewrite of such a step never throws that error.
\<close>

theorem add_action_rejected_location_throws:
  assumes "distinct (map (\<lambda>s. name (props s)) (getAllSteps (trigger f)))"
    and "P \<in> set (getAllSteps (trigger f))"
    and "name (props P) = parentStep request"
    and "stepLocationRelativeToParent request = Some l"
    and "rejectsLocation P l (branchIndex request)"
    and "depth (trigger f) \<le> d"
  shows "throwsFlowOperationInvalid (flowHelper_apply d E f (ADD_ACTION request))
       \<and> (\<forall>p k n cs. \<not> throwsFlowOperationInvalid (addActionStep E request cs (Leaf p k n)))"
proof -
  obtain m where m: "addActionStep E request None P = Throw (FLOW_OPERATION_INVALID m)"
    using addActionStep_rejects[OF assms(3,4,5)] by blast
  have "addActionStep E request None s = Ok s
      \<or> addActionStep E request None s = Throw (FLOW_OPERATION_INVALID m)"
    if "s \<in> set (traverseInternal (trigger f))" for s
  proof (cases "name (props s) = parentStep request")
    case True
    then have "s = P"
      using distinct_names_unique[OF assms(1), of s P] that assms(2,3)
      by (simp add: getAllSteps_def)
    then show ?thesis using m by simp
  next
    case False
    then show ?thesis by (simp add: addActionStep_other)
  qed
  then have "transferStep d (addActionStep E request None) (trigger f)
      = Throw (FLOW_OPERATION_INVALID m)"
    using assms(2,6) m by (intro transferStep_throws) (auto simp: getAllSteps_def)
  then show ?thesis
    using addActionStep_leaf
    by (simp add: flowHelper_apply_def addActionOperation_def addAction_def transferFlow_def
        throwsFlowOperationInvalid_def)
qed

theorem add_action_rejected_location_witness:
  "distinct (map (\<lambda>s. name (props s)) (getAllSteps (trigger loopHeadFlow)))
   \<and> rejectsLocation (Loop (exProps ''step_1'')
          (Some (Router (exRouterProps ''step_2'' [''Branch 1'', ''Otherwise'']) [None, None] None))
          None) INSIDE_TRUE_BRANCH None
   \<and> throwsFlowOperationInvalid
         (flowHelper_apply 3 exEnv loopHeadFlow
            (ADD_ACTION (addRequest ''step_1'' (Some INSIDE_TRUE_BRANCH) (codeRequest ''step_3''))))"
proof -
  let ?P = "Loop (exProps ''step_1'')
          (Some (Router (exRouterProps ''step_2'' [''Branch 1'', ''Otherwise'']) [None, None] None))
          None"
  let ?r = "addRequest ''step_1'' (Some INSIDE_TRUE_BRANCH) (codeRequest ''step_3'')"
  have h1: "distinct (map (\<lambda>s. name (props s)) (getAllSteps (trigger loopHeadFlow)))"
    by (simp add: loopHeadFlow_def exFlow_def getAllSteps_def exProps_def exRouterProps_def)
  have h2: "?P \<in> set (getAllSteps (trigger loopHeadFlow))"
    by (simp add: loopHeadFlow_def exFlow_def getAllSteps_def)
  have h3: "name (props ?P) = parentStep ?r" by (simp add: addRequest_def exProps_def)
  have h4: "stepLocationRelativeToParent ?r = Some INSIDE_TRUE_BRANCH"
    by (simp add: addRequest_def)
  have h5: "rejectsLocation ?P INSIDE_TRUE_BRANCH (branchIndex ?r)"
    by (simp add: rejectsLocation_def)
  have h6: "depth (trigger loopHeadFlow) \<le> 3" by (simp add: loopHeadFlow_def exFlow_def)
  have i: "branchIndex ?r = None" by (simp add: addRequest_def)
  show ?thesis
    using add_action_rejected_location_throws [OF h1 h2 h3 h4 h5 h6, of exEnv] h1 h5 i by simp
qed

text \<open>
  C7 as stated fails: \<^verbatim>\<open>INSIDE_LOOP\<close> on a parent that is a piece action
  throws nothing; the new step is inserted after the parent.
\<close>

theorem add_action_inside_loop_of_piece_counterexample:
  "flowHelper_apply 4 exEnv pieceFlow
     (ADD_ACTION (addRequest ''step_1'' (Some INSIDE_LOOP) (codeRequest ''step_2'')))
   = Ok (exFlow (Leaf (exProps ''trigger'') LEAF_EMPTY
       (Some (Leaf (exProps ''step_1'') LEAF_PIECE
       (Some (Leaf (exProps ''step_2'') LEAF_CODE None))))))"
  by code_simp

text \<open>
  C4, as the code has it. In a flow with distinct step names, for a router that is the
  \<^verbatim>\<open>nextAction\<close> of a step, \<^verbatim>\<open>ADD_BRANCH\<close> returns a
  flow in which the router has \<^verbatim>\<open>null\<close> inserted into its children at
  the index and, at the same index of its branches, a fresh condition branch named
  \<^verbatim>\<open>Branch n\<close>, \<open>n\<close> the number of branches the router had (not
  \<open>n + 1\<close>); an index outside the list is clamped as \<^verbatim>\<open>splice\<close>
  does.
\<close>

theorem add_branch_inserts_branch:
  fixes i :: int
  assumes "distinct (map (\<lambda>s. name (props s)) (getAllSteps (trigger f)))"
    and "P \<in> set (getAllSteps (trigger f))"
    and "nextAction P = Some (Router p cs n)"
    and "name p = N"
    and "depth (trigger f) \<le> d"
  shows "\<exists>g. flowHelper_apply d E f (ADD_BRANCH N i) = Ok g
       \<and> getStep g N =
           Some (Router
             (setBranches
                (take (spliceStart i (length (branches (settings p)))) (branches (settings p))
                 @ [\<lparr>conditions = [[emptyCondition]], branchType = CONDITION,
                      branchName = ''Branch '' @ showNat (length (branches (settings p)))\<rparr>]
                 @ drop (spliceStart i (length (branches (settings p)))) (branches (settings p)))
                p)
             (take (spliceStart i (length cs)) cs @ [None] @ drop (spliceStart i (length cs)) cs)
             n)"
proof -
  have "distinct (stepNames (trigger f))" "P \<in> set (traverseInternal (trigger f))"
    using assms(1,2) by (simp_all add: stepNames_def getAllSteps_def)
  from add_branch_in_tree[OF this assms(3,4,5), of i]
  obtain r where r: "transferStep d (\<lambda>st. Ok (addBranchStep N i st)) (trigger f) = Ok r"
    "find (\<lambda>s. name (props s) = N) (traverseInternal r) =
       Some (Router (setBranches (spliceInsert i (createEmptyBranch (length (branches (settings p))))
                                      (branches (settings p))) p) (spliceInsert i None cs) n)"
    by blast
  show ?thesis
    using r
    by (simp add: flowHelper_apply_def transferFlow_def getStep_def getAllSteps_def
        spliceInsert_def createEmptyBranch_def)
qed

theorem add_branch_inserts_branch_witness:
  "distinct (map (\<lambda>s. name (props s)) (getAllSteps (trigger routerFlow)))
   \<and> flowHelper_apply 3 exEnv routerFlow (ADD_BRANCH ''step_1'' 1) = Ok routerFlowAdded
   \<and> getStep routerFlowAdded ''step_1''
       = Some (Router (exRouterProps ''step_1'' [''Branch 1'', ''Branch 2'', ''Otherwise''])
                 [None, None, None] None)"
proof -
  let ?p = "exRouterProps ''step_1'' [''Branch 1'', ''Otherwise'']"
  let ?P = "Leaf (exProps ''trigger'') LEAF_EMPTY (Some (Router ?p [None, None] None))"
  have h1: "distinct (map (\<lambda>s. name (props s)) (getAllSteps (trigger routerFlow)))"
    by (simp add: routerFlow_def exFlow_def getAllSteps_def exProps_def exRouterProps_def)
  have h2: "?P \<in> set (getAllSteps (trigger routerFlow))"
    by (simp add: routerFlow_def exFlow_def getAllSteps_def)
  have h3: "nextAction ?P = Some (Router ?p [None, None] None)" by simp
  have h4: "name ?p = ''step_1''" by (simp add: exRouterProps_def)
  have h5: "depth (trigger routerFlow) \<le> 3" by (simp add: routerFlow_def exFlow_def)
  have e: "flowHelper_apply 3 exEnv routerFlow (ADD_BRANCH ''step_1'' 1) = Ok routerFlowAdded"
    by code_simp
  have g: "getStep routerFlowAdded ''step_1''
       = Some (Router (exRouterProps ''step_1'' [''Branch 1'', ''Branch 2'', ''Otherwise''])
                 [None, None, None] None)"
    by code_simp
  show ?thesis
    using add_branch_inserts_branch [OF h1 h2 h3 h4 h5, of exEnv 1] h1 e g by blast
qed

text \<open>
  C4 as stated fails: adding a branch to a router with the two branches
  \<^verbatim>\<open>Branch 1\<close> and \<^verbatim>\<open>Otherwise\<close> inserts a branch named
  \<^verbatim>\<open>Branch 2\<close>, not \<^verbatim>\<open>Branch 3\<close>.
\<close>

theorem add_branch_name_counterexample:
  "flowHelper_apply 3 exEnv routerFlow (ADD_BRANCH ''step_1'' 1) = Ok routerFlowAdded
   \<and> map branchName (branches (settings (props (the (getStep routerFlowAdded ''step_1'')))))
       = [''Branch 1'', ''Branch 2'', ''Otherwise'']"
  by code_simp




text \<open>
  C1 is right and the code does not meet it. The operations of
  \<^verbatim>\<open>getImportOperations\<close> for a loop over a router with three branches and
  the children \<^verbatim>\<open>[null, null, null]\<close> are replayed, through
  \<^verbatim>\<open>apply\<close>, into the flow of a trigger and the stripped loop. The one
  operation adds the router inside the loop, and \<^verbatim>\<open>createAction\<close> gives
  it the children \<^verbatim>\<open>[null, null]\<close>: the \<^verbatim>\<open>ADD_ACTION\<close>
  case of \<^verbatim>\<open>apply\<close> hands \<^verbatim>\<open>addAction\<close> no children, and
  those the request carries are not read. The router of the result has two children and
  three branches, the original three of each. (\<^verbatim>\<open>duplicateStep\<close> and
  \<^verbatim>\<open>moveAction\<close> hand \<^verbatim>\<open>addAction\<close> the children of the
  step they insert themselves.)
\<close>

theorem import_replay_router_children_counterexample:
  "map (\<lambda>s. case s of
               Router p cs n \<Rightarrow> Some (length cs, length (branches (settings p)))
             | _ \<Rightarrow> None)
     (getAllSteps loopOverRouter) = [None, Some (3, 3)]
   \<and> map (\<lambda>request. (parentStep request, stepLocationRelativeToParent request,
                        actionName (action request)))
       (getImportOperations loopOverRouter) = [(''step_1'', Some INSIDE_LOOP, ''step_2'')]
   \<and> (case foldResult (applyImportOperation 5 exEnv)
             (exFlow (Leaf (exProps ''trigger'') LEAF_EMPTY
                (Some (removeAnySubsequentAction loopOverRouter))))
             (getImportOperations loopOverRouter)
       of Ok g \<Rightarrow>
            map (\<lambda>s. name (props s)) (getAllSteps (trigger g))
              = [''trigger'', ''step_1'', ''step_2'']
            \<and> map (\<lambda>s. case s of
                          Router p cs n \<Rightarrow> Some (length cs, length (branches (settings p)))
                        | _ \<Rightarrow> None)
                (getAllSteps (trigger g)) = [None, None, Some (2, 3)]
            \<and> trigger g \<noteq> Leaf (exProps ''trigger'') LEAF_EMPTY (Some loopOverRouter)
        | _ \<Rightarrow> False)"
  by code_simp

text \<open>
  C9, as the code has it. In a flow with distinct step names, let \<open>S\<close> be the step
  to move, in slot \<open>k\<close> of its parent \<open>P\<close>, and \<open>D\<close> the destination
  step, outside the subtree of \<open>S\<close> (\<open>S\<close>, its slots, its
  \<^verbatim>\<open>nextAction\<close> chain), with slot \<open>j\<close> for the location; the two
  slots are not the same. After a \<^verbatim>\<open>MOVE_ACTION\<close> that succeeds, the slot
  \<open>k\<close> of the step named as \<open>P\<close> holds what followed \<open>S\<close>; and there
  is a step named as \<open>S\<close> whose \<^verbatim>\<open>nextAction\<close> is what the slot
  \<open>j\<close> of the destination held after \<open>S\<close> was deleted, which is not the
  \<^verbatim>\<open>nextAction\<close> \<open>S\<close> had. For a loop or branch, whose slots
  are replayed, this is the state after the replay.
\<close>

theorem move_action_splices_next_chain:
  assumes distinct: "distinct (map (\<lambda>s. name (props s)) (getAllSteps (trigger f)))"
    and P: "P \<in> set (getAllSteps (trigger f))"
    and k: "k < length (subs P)" "subs P ! k = Some S"
    and S: "name (props S) = moveName request"
    and D: "D \<in> set (getAllSteps (trigger f))" "name (props D) = newParentStep request"
      "D \<notin> set (traverseInternal S)"
    and slot: "targetSlot D (stepLocationRelativeToNewParent request) (moveBranchIndex request)
                 = Some j"
    and neq: "\<not> (D = P \<and> j = k)"
    and ok: "flowHelper_apply d E f (MOVE_ACTION request) = Ok g"
  shows "\<exists>P' S' f1 D1.
           P' \<in> set (getAllSteps (trigger g)) \<and> name (props P') = name (props P)
         \<and> subs P' ! k = nextAction S
         \<and> S' \<in> set (getAllSteps (trigger g)) \<and> name (props S') = moveName request
         \<and> deleteAction d f (moveName request) = Ok f1
         \<and> getStep f1 (newParentStep request) = Some D1
         \<and> nextAction S' = subs D1 ! j
         \<and> (nextAction S \<noteq> None \<longrightarrow> nextAction S' \<noteq> nextAction S)"
proof -
  let ?t = "trigger f"
  let ?nm = "name (props S)"
  let ?cs = "case S of Router p c n \<Rightarrow> Some c | _ \<Rightarrow> None"
  let ?req = "\<lparr>parentStep = newParentStep request,
               stepLocationRelativeToParent = stepLocationRelativeToNewParent request,
               branchIndex = moveBranchIndex request,
               requestBranchName = moveBranchName request,
               action = asRequest S\<rparr>"
  let ?ops = "case S of Loop p b n \<Rightarrow> getImportOperations (setNextAction None S)
              | Branch p s f n \<Rightarrow> getImportOperations (setNextAction None S)
              | _ \<Rightarrow> []"
  have d: "distinct (stepNames ?t)" using distinct by (simp add: stepNames_def getAllSteps_def)
  have Pt: "P \<in> set (traverseInternal ?t)" and Dt: "D \<in> set (traverseInternal ?t)"
    using P D(1) by (simp_all add: getAllSteps_def)
  have Sin: "Some S \<in> set (subs P)" using k by (metis nth_mem)
  have St: "S \<in> set (traverseInternal ?t)" using child_in_steps[OF Pt Sin] .
  have dS: "distinct (stepNames S)" using distinct_below[OF d St] .
  have src: "find (\<lambda>s. name (props s) = moveName request) (getAllSteps ?t) = Some S"
    using find_by_name[OF d St] S by (simp add: getAllSteps_def)
  have dst: "find (\<lambda>s. name (props s) = newParentStep request) (getAllSteps ?t) = Some D"
    using find_by_name[OF d Dt] D(2) by (simp add: getAllSteps_def)
  obtain g0 where g0: "moveAction d E f request = Ok g0" "g = g0\<lparr>flowValid := isValid g0\<rparr>"
    using ok by (auto simp: flowHelper_apply_def rbind_eq_Ok)
  have "rbind (deleteAction d f (moveName request)) (\<lambda>fv1.
          rbind (addAction d E fv1 ?req ?cs) (\<lambda>fv2.
          foldResult (applyImportOperation d E) fv2 ?ops)) = Ok g0"
    using g0(1) unfolding moveAction_def Let_def src dst
    by (simp split: if_splits)
  then obtain fv1 fv2 where fv: "deleteAction d f (moveName request) = Ok fv1"
    "addAction d E fv1 ?req ?cs = Ok fv2"
    "foldResult (applyImportOperation d E) fv2 ?ops = Ok g0"
    by (auto simp: rbind_eq_Ok)
  have del: "transferStep d (\<lambda>st. Ok (deleteActionStep ?nm st)) ?t = Ok (trigger fv1)"
    using fv(1) S by (auto simp: deleteAction_def transferFlow_def rbind_eq_Ok)
  have add: "transferStep d (addActionStep E ?req ?cs) (trigger fv1) = Ok (trigger fv2)"
    using fv(2) by (auto simp: addAction_def transferFlow_def rbind_eq_Ok)
  let ?t1 = "trigger fv1" and ?t2 = "trigger fv2"
  have t1: "?t1 = graft (name (props P)) (withSubs ((subs P)[k := nextAction S]) P) ?t"
    using delete_graft[OF d Pt k refl del] .
  note r1 = delete_result[OF d Pt k t1]
  from move_two_stages[OF d Pt k Dt D(3) slot neq _ _ _ _ refl del add, of ]
  obtain D1 A P2 where m: "D1 \<in> set (traverseInternal ?t1)" "name (props D1) = name (props D)"
    "j < length (subs D1)"
    "createAction E (asRequest S) (headSlots (subs D1 ! j) ?cs) = Ok A"
    "?t2 = graft (name (props D)) (withSubs ((subs D1)[j := Some A]) D1) ?t1"
    "A \<in> set (traverseInternal ?t2)" "P2 \<in> set (traverseInternal ?t2)" "props P2 = props P"
    "subs P2 ! k = nextAction S" "length (subs P2) = length (subs P)"
    "nextAction S \<noteq> None \<longrightarrow> subs D1 ! j \<noteq> nextAction S"
    using D(2) by auto
  have nA: "nextAction A = subs D1 ! j" "name (props A) = ?nm" "stepType A = stepType S"
    using createAction_head(1,2,3)[OF m(4)] by (simp_all add: asRequest_def)
  have gs: "getStep fv1 (newParentStep request) = Some D1"
    using find_by_name[OF r1(1) m(1)] m(2) D(2) by (simp add: getStep_def getAllSteps_def)
  have nmP: "name (props P) \<noteq> ?nm"
    using head_name_not_below[OF distinct_below[OF d Pt] Sin]
      name_in_stepNames[OF traverseInternal_self, of S] by auto
  have nmN: "?nm \<notin> set (optNames (nextAction S))"
    using dS by (subst (asm) stepNames_next) simp
  have nmC: "?nm \<notin> set (optNames (subs D1 ! j))"
    using slot_names[OF m(3)] below_names[OF m(1)] r1(2) by auto
  have "\<exists>P' S'. P' \<in> set (traverseInternal (trigger g0)) \<and> props P' = props P
          \<and> subs P' ! k = nextAction S
          \<and> S' \<in> set (traverseInternal (trigger g0)) \<and> props S' = props A
          \<and> nextAction S' = nextAction A"
  proof (cases "stepType S = Action LOOP_ON_ITEMS \<or> stepType S = Action BRANCH")
    case True
    then have ops: "?ops = getImportOperations (setNextAction None S)"
      by (cases S) (auto simp: stepType_Leaf)
    have empty: "set (butlast (subs A)) \<subseteq> {None}"
      using True createAction_head(4)[OF m(4)] by (auto simp: asRequest_def)
    obtain U W where UW: "stepNames ?t1 = U @ W" "stepNames ?t2 = U @ ?nm # W"
      using add_names[OF r1(1) m(1) m(3) nA(1) empty] m(2,5) nA(2) by auto
    have d2: "distinct (stepNames ?t2)" using r1(1,2) unfolding UW by auto
    have nmM: "?nm \<notin> set (concat (map optNames (butlast (subs S))))"
      using dS by (subst (asm) stepNames_next) simp
    have out: "set (concat (map optNames (butlast (subs S)))) \<inter> set (stepNames ?t2) = {}"
      using r1(3) nmM unfolding UW by auto
    have h: "hollow ?nm (trigger g0) = ?t2"
      using move_replay[OF dS True d2 out m(6) nA(2,3) empty] fv(3) ops by simp
    have "\<exists>y \<in> set (traverseInternal (trigger g0)). props y = props P2 \<and> subs y ! k = subs P2 ! k"
    proof (rule hollow_find_slot[of _ ?nm])
      show "P2 \<in> set (traverseInternal (hollow ?nm (trigger g0)))" using h m(7) by simp
      show "name (props P2) \<noteq> ?nm" using m(8) nmP by simp
      show "k < length (subs P2)" using m(10) k(1) by simp
      show "?nm \<notin> set (optNames (subs P2 ! k))" using m(9) nmN by simp
    qed
    moreover have "\<exists>y \<in> set (traverseInternal (trigger g0)). props y = props A
        \<and> nextAction y = nextAction A"
    proof (rule hollow_find_next[of _ ?nm])
      show "A \<in> set (traverseInternal (hollow ?nm (trigger g0)))" using h m(6) by simp
      show "?nm \<notin> set (optNames (nextAction A))" using nmC nA(1) by simp
    qed
    ultimately show ?thesis using m(8,9) by auto
  next
    case False
    then have "?ops = []" by (cases S) auto
    then have "g0 = fv2" using fv(3) by simp
    then show ?thesis using m(6,7,8,9) by blast
  qed
  then obtain P' S' where r: "P' \<in> set (traverseInternal (trigger g0))" "props P' = props P"
    "subs P' ! k = nextAction S" "S' \<in> set (traverseInternal (trigger g0))" "props S' = props A"
    "nextAction S' = nextAction A" by blast
  have tg: "trigger g = trigger g0" using g0(2) by simp
  have c1: "P' \<in> set (getAllSteps (trigger g))" "S' \<in> set (getAllSteps (trigger g))"
    using r(1,4) tg by (simp_all add: getAllSteps_def)
  have c2: "name (props P') = name (props P)" "name (props S') = moveName request"
    using r(2,5) nA(2) S by simp_all
  have c3: "nextAction S' = subs D1 ! j" using r(6) nA(1) by simp
  have c4: "nextAction S \<noteq> None \<longrightarrow> nextAction S' \<noteq> nextAction S" using m(11) c3 by simp
  show ?thesis
    using c1 c2 r(3) fv(1) gs c3 c4
    by (intro exI[of _ P'] exI[of _ S'] exI[of _ fv1] exI[of _ D1]) blast
qed

theorem move_action_splices_next_chain_witness:
  "distinct (map (\<lambda>s. name (props s)) (getAllSteps (trigger moveFlow)))
   \<and> subs moveBranch ! 0 = Some moveLoop
   \<and> moveTarget \<notin> set (traverseInternal moveLoop)
   \<and> targetSlot moveTarget (Some AFTER) None = Some 0
   \<and> flowHelper_apply 6 exEnv moveFlow (MOVE_ACTION moveRequest) = Ok movedFlow
   \<and> (\<exists>P' S' f1 D1.
           P' \<in> set (getAllSteps (trigger movedFlow)) \<and> name (props P') = ''step_1''
         \<and> subs P' ! 0 = Some (Leaf (exProps ''step_4'') LEAF_CODE None)
         \<and> S' \<in> set (getAllSteps (trigger movedFlow)) \<and> name (props S') = ''step_2''
         \<and> deleteAction 6 moveFlow ''step_2'' = Ok f1
         \<and> getStep f1 ''step_5'' = Some D1
         \<and> nextAction S' = subs D1 ! 0
         \<and> nextAction S' \<noteq> Some (Leaf (exProps ''step_4'') LEAF_CODE None))"
proof -
  have h1: "distinct (map (\<lambda>s. name (props s)) (getAllSteps (trigger moveFlow)))" by code_simp
  have h2: "moveBranch \<in> set (getAllSteps (trigger moveFlow))" by code_simp
  have h3: "0 < length (subs moveBranch)" by code_simp
  have h4: "subs moveBranch ! 0 = Some moveLoop" by code_simp
  have h5: "name (props moveLoop) = moveName moveRequest" by code_simp
  have h6: "moveTarget \<in> set (getAllSteps (trigger moveFlow))" by code_simp
  have h7: "name (props moveTarget) = newParentStep moveRequest" by code_simp
  have h8: "moveTarget \<notin> set (traverseInternal moveLoop)" by code_simp
  have h9: "targetSlot moveTarget (stepLocationRelativeToNewParent moveRequest)
              (moveBranchIndex moveRequest) = Some 0" by code_simp
  have h10: "\<not> (moveTarget = moveBranch \<and> (0::nat) = 0)" by code_simp
  have h11: "flowHelper_apply 6 exEnv moveFlow (MOVE_ACTION moveRequest) = Ok movedFlow"
    by code_simp
  have e: "name (props moveBranch) = ''step_1''" "moveName moveRequest = ''step_2''"
    "newParentStep moveRequest = ''step_5''"
    "nextAction moveLoop = Some (Leaf (exProps ''step_4'') LEAF_CODE None)"
    "targetSlot moveTarget (Some AFTER) None = Some 0"
    by code_simp+
  show ?thesis
    using move_action_splices_next_chain [OF h1 h2 h3 h4 h5 h6 h7 h8 h9 h10 h11] h1 h4 h8 h11 e
    by simp
qed

text \<open>
  C9 as stated fails: a step moved to after its own parent, the slot it is in already, is
  deleted and inserted again before the steps that followed it. The slot that pointed at
  \<^verbatim>\<open>step_1\<close> points at its copy, and the copy is followed by
  \<^verbatim>\<open>step_2\<close>, the former next chain.
\<close>

theorem move_to_own_slot_counterexample:
  "(case flowHelper_apply 4 exEnv chainFlow
           (MOVE_ACTION \<lparr>moveName = ''step_1'', newParentStep = ''trigger'',
              stepLocationRelativeToNewParent = Some AFTER, moveBranchIndex = None,
              moveBranchName = None\<rparr>)
    of Ok g \<Rightarrow>
         map (\<lambda>s. (name (props s), map_option (\<lambda>a. name (props a)) (nextAction s)))
           (getAllSteps (trigger g))
           = [(''trigger'', Some ''step_1''), (''step_1'', Some ''step_2''), (''step_2'', None)]
     | _ \<Rightarrow> False)
   \<and> map (\<lambda>s. (name (props s), map_option (\<lambda>a. name (props a)) (nextAction s)))
       (getAllSteps (trigger chainFlow))
       = [(''trigger'', Some ''step_1''), (''step_1'', Some ''step_2''), (''step_2'', None)]"
  by code_simp

end
